theory Spec2Isabelle
  imports Main
begin

section \<open>The edge function \<open>process-program-data\<close>\<close>

text \<open>
  A shallow embedding of \<^verbatim>\<open>supabase/functions/process-program-data/index.ts\<close>: the
  request handler that reads a message, asks a completion service for a structured
  graph of programs, deadlines, people and links, and inserts that graph into four
  tables of an external store.

  The handler works on untyped JSON throughout (\<^verbatim>\<open>req.json()\<close>,
  \<^verbatim>\<open>JSON.parse\<close>), so the model keeps JavaScript values as they are: a property
  read on \<^verbatim>\<open>null\<close> throws, \<^verbatim>\<open>||\<close> tests truthiness, \<^verbatim>\<open>===\<close> compares
  primitives by value and objects by reference. Every \<^verbatim>\<open>throw\<close> is a value of
  type \<open>exn\<close>; the store and the completion service, which are external, are
  parameters of the handler (\<open>env\<close>), and what the handler did to them is recorded in
  the \<open>world\<close> it returns.
\<close>

subsection \<open>JavaScript values\<close>

text \<open>
  The values \<^verbatim>\<open>JSON.parse\<close> can return, and \<^verbatim>\<open>undefined\<close> (the value of a
  missing property). An object is the association list of its own properties; a
  number is an integer here (no claim depends on a fractional number).
\<close>

datatype jsval =
    JUndefined
  | JNull
  | JBool bool
  | JNum int
  | JStr string
  | JArr "jsval list"
  | JObj "(string \<times> jsval) list"

text \<open>What the handler can throw; \<open>Error m\<close> is \<^verbatim>\<open>new Error(m)\<close>.\<close>

datatype exn = Error string | TypeError | SyntaxError

text \<open>\<^verbatim>\<open>!v\<close> is false exactly on the truthy values.\<close>

fun truthy :: "jsval \<Rightarrow> bool" where
  "truthy JUndefined = False"
| "truthy JNull = False"
| "truthy (JBool b) = b"
| "truthy (JNum n) = (n \<noteq> 0)"
| "truthy (JStr s) = (s \<noteq> [])"
| "truthy (JArr xs) = True"
| "truthy (JObj kvs) = True"

text \<open>\<^verbatim>\<open>a || b\<close>\<close>

definition or_else :: "jsval \<Rightarrow> jsval \<Rightarrow> jsval" where
  "or_else a b = (if truthy a then a else b)"

text \<open>
  \<^verbatim>\<open>a === b\<close>. Two arrays or objects met at different places of a parsed JSON
  text are different references, so they are never strictly equal.
\<close>

fun strict_eq :: "jsval \<Rightarrow> jsval \<Rightarrow> bool" where
  "strict_eq JUndefined JUndefined = True"
| "strict_eq JNull JNull = True"
| "strict_eq (JBool a) (JBool b) = (a = b)"
| "strict_eq (JNum a) (JNum b) = (a = b)"
| "strict_eq (JStr a) (JStr b) = (a = b)"
| "strict_eq _ _ = False"

text \<open>
  \<^verbatim>\<open>v.k\<close> for the property names the handler reads, none of which is inherited
  from a built-in prototype: an own property of an object, \<^verbatim>\<open>undefined\<close> on any
  other value, and a \<^verbatim>\<open>TypeError\<close> on \<^verbatim>\<open>null\<close> and \<^verbatim>\<open>undefined\<close>.
\<close>

fun get :: "jsval \<Rightarrow> string \<Rightarrow> exn + jsval" where
  "get JUndefined k = Inl TypeError"
| "get JNull k = Inl TypeError"
| "get (JObj kvs) k = Inr (case map_of kvs k of None \<Rightarrow> JUndefined | Some v \<Rightarrow> v)"
| "get v k = Inr JUndefined"

text \<open>\<^verbatim>\<open>v[0]\<close>\<close>

fun index0 :: "jsval \<Rightarrow> exn + jsval" where
  "index0 JUndefined = Inl TypeError"
| "index0 JNull = Inl TypeError"
| "index0 (JArr xs) = Inr (case xs of [] \<Rightarrow> JUndefined | x # _ \<Rightarrow> x)"
| "index0 (JStr s) = Inr (case s of [] \<Rightarrow> JUndefined | c # _ \<Rightarrow> JStr [c])"
| "index0 (JObj kvs) = Inr (case map_of kvs ''0'' of None \<Rightarrow> JUndefined | Some v \<Rightarrow> v)"
| "index0 v = Inr JUndefined"

text \<open>
  The values a \<^verbatim>\<open>for (const x of v)\<close> loop visits: the elements of an array, the
  characters of a string; any other value is not iterable.
\<close>

fun iterate :: "jsval \<Rightarrow> exn + jsval list" where
  "iterate (JArr xs) = Inr xs"
| "iterate (JStr s) = Inr (map (\<lambda>c. JStr [c]) s)"
| "iterate v = Inl TypeError"

text \<open>\<^verbatim>\<open>extractedData.k || []\<close>, as a loop iterates it.\<close>

definition entries :: "jsval \<Rightarrow> string \<Rightarrow> exn + jsval list" where
  "entries extractedData k =
     (case get extractedData k of
        Inl e \<Rightarrow> Inl e
      | Inr v \<Rightarrow> iterate (or_else v (JArr [])))"

text \<open>
  The properties \<open>ks\<close> of \<open>v\<close>, read from left to right as an object literal
  \<^verbatim>\<open>{ k1: v.k1, k2: v.k2, ... }\<close> does.
\<close>

fun props :: "jsval \<Rightarrow> string list \<Rightarrow> exn + (string \<times> jsval) list" where
  "props v [] = Inr []"
| "props v (k # ks) =
     (case get v k of
        Inl e \<Rightarrow> Inl e
      | Inr x \<Rightarrow> (case props v ks of Inl e \<Rightarrow> Inl e | Inr r \<Rightarrow> Inr ((k, x) # r)))"

subsection \<open>The world outside the handler\<close>

text \<open>
  The store keeps its rows in insertion order, each with the name of its table, and
  numbers them (\<open>next_id\<close>). \<open>inserts\<close> lists every insert the store was asked
  for: the table, the object to insert, and the store's answer (the row it wrote, or
  \<open>None\<close> when it rejected the insert). \<open>completions\<close> lists every request sent to
  the completion service: the credential and the user's message.
\<close>

record world =
  db :: "(string \<times> jsval) list"
  next_id :: nat
  inserts :: "(string \<times> jsval \<times> jsval option) list"
  completions :: "(string \<times> jsval) list"

text \<open>The reply of the completion service to one \<^verbatim>\<open>fetch\<close>.\<close>

datatype upstream =
    NetworkFailure
  | HttpError string
  | Reply "jsval option"

text \<open>
  What the handler is given from outside: the three environment variables, the
  library functions \<^verbatim>\<open>createClient\<close> (which may throw) and \<^verbatim>\<open>JSON.parse\<close>
  (\<open>None\<close> when it throws), the completion service, and the store's decision to
  accept or reject an insert, which may depend on everything the store has seen.
\<close>

record env =
  OPENAI_API_KEY :: "string option"
  SUPABASE_URL :: "string option"
  SUPABASE_SERVICE_ROLE_KEY :: "string option"
  createClient :: "string option \<Rightarrow> string option \<Rightarrow> exn option"
  json_parse :: "jsval \<Rightarrow> jsval option"
  completion :: "string \<Rightarrow> jsval \<Rightarrow> upstream"
  accepts :: "world \<Rightarrow> string \<Rightarrow> (string \<times> jsval) list \<Rightarrow> bool"

text \<open>The row the store writes for an accepted object: the object and its id.\<close>

definition stored :: "nat \<Rightarrow> (string \<times> jsval) list \<Rightarrow> jsval" where
  "stored n payload = JObj ((''id'', JNum (int n)) # payload)"

text \<open>
  \<^verbatim>\<open>supabase.from(tbl).insert(payload).select().single()\<close>: the store either
  rejects the insert and writes nothing (\<open>None\<close>, the \<^verbatim>\<open>error\<close> of the source), or
  writes the payload as a row with a fresh id and returns that row (the \<^verbatim>\<open>data\<close>).
  Columns the store fills in by itself (timestamps, defaults) are left out.
\<close>

definition insert_row :: "env \<Rightarrow> string \<Rightarrow> (string \<times> jsval) list \<Rightarrow> world \<Rightarrow> jsval option \<times> world" where
  "insert_row env tbl payload w =
     (if accepts env w tbl payload
      then (let row = stored (next_id w) payload in
            (Some row,
             w\<lparr>inserts := inserts w @ [(tbl, JObj payload, Some row)],
               db := db w @ [(tbl, row)],
               next_id := Suc (next_id w)\<rparr>))
      else (None, w\<lparr>inserts := inserts w @ [(tbl, JObj payload, None)]\<rparr>))"

subsection \<open>The persist loop (lines 108 to 201)\<close>

record results =
  programs :: "jsval list"
  deadlines :: "jsval list"
  people :: "jsval list"
  links :: "jsval list"
  rawResponse :: jsval

text \<open>
  One of the three inner loops: for every entry of the array whose
  \<^verbatim>\<open>program_title\<close> is strictly equal to the title of the program, insert a row
  made of the program's id and the fields \<open>flds\<close> of the entry; push the row on
  the result unless the insert failed.
\<close>

fun insert_children ::
  "env \<Rightarrow> string \<Rightarrow> string list \<Rightarrow> jsval \<Rightarrow> jsval \<Rightarrow> jsval list \<Rightarrow> jsval list \<Rightarrow> world
   \<Rightarrow> (exn + jsval list) \<times> world" where
  "insert_children env tbl flds program programData [] acc w = (Inr acc, w)"
| "insert_children env tbl flds program programData (child # rest) acc w =
     (case get child ''program_title'' of
        Inl e \<Rightarrow> (Inl e, w)
      | Inr pt \<Rightarrow>
         (case get program ''title'' of
            Inl e \<Rightarrow> (Inl e, w)
          | Inr t \<Rightarrow>
             if strict_eq pt t then
               (case get programData ''id'' of
                  Inl e \<Rightarrow> (Inl e, w)
                | Inr pid \<Rightarrow>
                   (case props child flds of
                      Inl e \<Rightarrow> (Inl e, w)
                    | Inr fs \<Rightarrow>
                       (case insert_row env tbl ((''program_id'', pid) # fs) w of
                          (None, w1) \<Rightarrow>
                            insert_children env tbl flds program programData rest acc w1
                        | (Some childData, w1) \<Rightarrow>
                            insert_children env tbl flds program programData rest
                              (acc @ [childData]) w1)))
             else insert_children env tbl flds program programData rest acc w))"

definition deadline_fields :: "string list" where
  "deadline_fields = [''title'', ''deadline_date'', ''deadline_type'', ''description'']"

definition person_fields :: "string list" where
  "person_fields = [''name'', ''description'', ''linkedin_url'', ''role'']"

definition link_fields :: "string list" where
  "link_fields = [''title'', ''url'', ''description'', ''link_type'']"

text \<open>The object given to the insert into \<^verbatim>\<open>research_programs\<close> (lines 121 to 128).\<close>

definition program_payload :: "jsval \<Rightarrow> jsval \<Rightarrow> exn + (string \<times> jsval) list" where
  "program_payload userId program =
     (case props program [''title'', ''university'', ''description'', ''program_type''] of
        Inl e \<Rightarrow> Inl e
      | Inr fs \<Rightarrow>
         (case get program ''status'' of
            Inl e \<Rightarrow> Inl e
          | Inr s \<Rightarrow>
             Inr ((''user_id'', userId) # fs @ [(''status'', or_else s (JStr ''active''))])))"

text \<open>
  One inner loop on the array \<open>key\<close> of the extracted data, which the source
  reads again (\<^verbatim>\<open>extractedData.deadlines || []\<close>) for every program.
\<close>

definition insert_associated ::
  "env \<Rightarrow> string \<Rightarrow> string \<Rightarrow> string list \<Rightarrow> jsval \<Rightarrow> jsval \<Rightarrow> jsval \<Rightarrow> jsval list \<Rightarrow> world
   \<Rightarrow> (exn + jsval list) \<times> world" where
  "insert_associated env key tbl flds extractedData program programData acc w =
     (case entries extractedData key of
        Inl e \<Rightarrow> (Inl e, w)
      | Inr cs \<Rightarrow> insert_children env tbl flds program programData cs acc w)"

text \<open>The three inner loops, in the order of the source (lines 139 to 200).\<close>

definition insert_all_children ::
  "env \<Rightarrow> jsval \<Rightarrow> jsval \<Rightarrow> jsval \<Rightarrow> results \<Rightarrow> world \<Rightarrow> (exn + results) \<times> world" where
  "insert_all_children env extractedData program programData res w =
     (case insert_associated env ''deadlines'' ''program_deadlines'' deadline_fields
             extractedData program programData (deadlines res) w of
        (Inl e, w1) \<Rightarrow> (Inl e, w1)
      | (Inr ds, w1) \<Rightarrow>
         (case insert_associated env ''people'' ''program_people'' person_fields
                 extractedData program programData (people res) w1 of
            (Inl e, w2) \<Rightarrow> (Inl e, w2)
          | (Inr ps, w2) \<Rightarrow>
             (case insert_associated env ''links'' ''program_links'' link_fields
                     extractedData program programData (links res) w2 of
                (Inl e, w3) \<Rightarrow> (Inl e, w3)
              | (Inr ls, w3) \<Rightarrow>
                 (Inr (res\<lparr>deadlines := ds, people := ps, links := ls\<rparr>), w3))))"

text \<open>
  The outer loop (lines 118 to 201). A rejected program insert is the
  \<^verbatim>\<open>continue\<close> of line 134.
\<close>

fun insert_programs ::
  "env \<Rightarrow> jsval \<Rightarrow> jsval \<Rightarrow> jsval list \<Rightarrow> results \<Rightarrow> world \<Rightarrow> (exn + results) \<times> world" where
  "insert_programs env userId extractedData [] res w = (Inr res, w)"
| "insert_programs env userId extractedData (program # rest) res w =
     (case program_payload userId program of
        Inl e \<Rightarrow> (Inl e, w)
      | Inr payload \<Rightarrow>
         (case insert_row env ''research_programs'' payload w of
            (None, w1) \<Rightarrow> insert_programs env userId extractedData rest res w1
          | (Some programData, w1) \<Rightarrow>
             (case insert_all_children env extractedData program programData
                     (res\<lparr>programs := programs res @ [programData]\<rparr>) w1 of
                (Inl e, w2) \<Rightarrow> (Inl e, w2)
              | (Inr res2, w2) \<Rightarrow> insert_programs env userId extractedData rest res2 w2)))"

text \<open>Lines 108 to 201: the empty results, then the outer loop.\<close>

definition persist :: "env \<Rightarrow> jsval \<Rightarrow> jsval \<Rightarrow> jsval \<Rightarrow> world \<Rightarrow> (exn + results) \<times> world" where
  "persist env userId extractedData content w =
     (case entries extractedData ''programs'' of
        Inl e \<Rightarrow> (Inl e, w)
      | Inr ps \<Rightarrow>
         insert_programs env userId extractedData ps
           \<lparr>programs = [], deadlines = [], people = [], links = [], rawResponse = content\<rparr> w)"

subsection \<open>The handler (lines 10 to 217)\<close>

text \<open>
  A request is its method and what \<^verbatim>\<open>req.json()\<close> gives (\<open>None\<close> when the body
  is not JSON, which throws a \<^verbatim>\<open>SyntaxError\<close>).
\<close>

record request =
  "method" :: string
  json :: "jsval option"

text \<open>
  The body of a response: \<^verbatim>\<open>null\<close>, \<^verbatim>\<open>JSON.stringify(results)\<close>, or
  \<^verbatim>\<open>JSON.stringify({ error: error.message, success: false })\<close> for the caught
  \<open>error\<close>.
\<close>

datatype body = Empty | Results results | Failure exn

record response =
  status :: nat
  headers :: "(string \<times> string) list"
  body :: body

definition corsHeaders :: "(string \<times> string) list" where
  "corsHeaders =
     [(''Access-Control-Allow-Origin'', ''*''),
      (''Access-Control-Allow-Headers'', ''authorization, x-client-info, apikey, content-type'')]"

text \<open>Lines 16 to 20: the destructuring of the body and the guard on both fields.\<close>

definition parse_request :: "request \<Rightarrow> exn + jsval \<times> jsval" where
  "parse_request req =
     (case json req of
        None \<Rightarrow> Inl SyntaxError
      | Some b \<Rightarrow>
         (case get b ''message'' of
            Inl e \<Rightarrow> Inl e
          | Inr message \<Rightarrow>
             (case get b ''userId'' of
                Inl e \<Rightarrow> Inl e
              | Inr userId \<Rightarrow>
                 if \<not> truthy message \<or> \<not> truthy userId
                 then Inl (Error ''Message and userId are required'')
                 else Inr (message, userId))))"

text \<open>Lines 22 to 25: the credential; an empty string is falsy too.\<close>

definition api_key :: "env \<Rightarrow> exn + string" where
  "api_key env =
     (case OPENAI_API_KEY env of
        None \<Rightarrow> Inl (Error ''OpenAI API key not configured'')
      | Some k \<Rightarrow>
         if k = [] then Inl (Error ''OpenAI API key not configured'') else Inr k)"

text \<open>
  Lines 79 to 106 and 114: one request to the completion service, then the
  content of its first choice, parsed. A rejected \<^verbatim>\<open>fetch\<close> throws a
  \<^verbatim>\<open>TypeError\<close>. Returns the extracted data and the raw content.
\<close>

definition call_completion :: "env \<Rightarrow> string \<Rightarrow> jsval \<Rightarrow> world \<Rightarrow> (exn + jsval \<times> jsval) \<times> world" where
  "call_completion env key message w =
     (let w1 = w\<lparr>completions := completions w @ [(key, message)]\<rparr> in
      case completion env key message of
        NetworkFailure \<Rightarrow> (Inl TypeError, w1)
      | HttpError text \<Rightarrow> (Inl (Error ''Failed to process message''), w1)
      | Reply None \<Rightarrow> (Inl SyntaxError, w1)
      | Reply (Some aiResponse) \<Rightarrow>
         (case get aiResponse ''choices'' of
            Inl e \<Rightarrow> (Inl e, w1)
          | Inr choices \<Rightarrow>
             (case index0 choices of
                Inl e \<Rightarrow> (Inl e, w1)
              | Inr choice \<Rightarrow>
                 (case get choice ''message'' of
                    Inl e \<Rightarrow> (Inl e, w1)
                  | Inr msg \<Rightarrow>
                     (case get msg ''content'' of
                        Inl e \<Rightarrow> (Inl e, w1)
                      | Inr content \<Rightarrow>
                         (case json_parse env content of
                            None \<Rightarrow> (Inl SyntaxError, w1)
                          | Some extractedData \<Rightarrow> (Inr (extractedData, content), w1)))))))"

text \<open>The body of the \<^verbatim>\<open>try\<close> (lines 16 to 201).\<close>

definition try_block :: "env \<Rightarrow> request \<Rightarrow> world \<Rightarrow> (exn + results) \<times> world" where
  "try_block env req w =
     (case parse_request req of
        Inl e \<Rightarrow> (Inl e, w)
      | Inr (message, userId) \<Rightarrow>
         (case api_key env of
            Inl e \<Rightarrow> (Inl e, w)
          | Inr key \<Rightarrow>
             (case createClient env (SUPABASE_URL env) (SUPABASE_SERVICE_ROLE_KEY env) of
                Some e \<Rightarrow> (Inl e, w)
              | None \<Rightarrow>
                 (case call_completion env key message w of
                    (Inl e, w1) \<Rightarrow> (Inl e, w1)
                  | (Inr (extractedData, content), w1) \<Rightarrow>
                      persist env userId extractedData content w1))))"

text \<open>
  The function given to \<^verbatim>\<open>serve\<close>. A response built without a status has
  status 200.
\<close>

definition handler :: "env \<Rightarrow> request \<Rightarrow> world \<Rightarrow> response \<times> world" where
  "handler env req w =
     (if method req = ''OPTIONS''
      then (\<lparr>status = 200, headers = corsHeaders, body = Empty\<rparr>, w)
      else
        (case try_block env req w of
           (Inr res, w1) \<Rightarrow>
             (\<lparr>status = 200,
               headers = corsHeaders @ [(''Content-Type'', ''application/json'')],
               body = Results res\<rparr>, w1)
         | (Inl e, w1) \<Rightarrow>
             (\<lparr>status = 500,
               headers = corsHeaders @ [(''Content-Type'', ''application/json'')],
               body = Failure e\<rparr>, w1)))"

subsection \<open>Vocabulary of the properties\<close>

text \<open>
  The test \<^verbatim>\<open>child.program_title === program.title\<close> of the inner loops, where
  neither read throws.
\<close>

definition matches :: "jsval \<Rightarrow> jsval \<Rightarrow> bool" where
  "matches program child =
     (case get child ''program_title'' of
        Inl e \<Rightarrow> False
      | Inr pt \<Rightarrow> (case get program ''title'' of Inl e \<Rightarrow> False | Inr t \<Rightarrow> strict_eq pt t))"

text \<open>The value of \<^verbatim>\<open>v.k\<close> where the read does not throw.\<close>

definition field :: "jsval \<Rightarrow> string \<Rightarrow> jsval" where
  "field v k = (case get v k of Inl e \<Rightarrow> JUndefined | Inr x \<Rightarrow> x)"

text \<open>
  The object an inner loop gives to the store for one entry: the id of the
  program's row, then the fields of the entry.
\<close>

definition child_payload :: "string list \<Rightarrow> jsval \<Rightarrow> jsval \<Rightarrow> (string \<times> jsval) list" where
  "child_payload flds programData child =
     (''program_id'', field programData ''id'') # map (\<lambda>k. (k, field child k)) flds"

text \<open>The array \<open>key\<close> of the extracted data as the loops iterate it.\<close>

definition entries_of :: "jsval \<Rightarrow> string \<Rightarrow> jsval list" where
  "entries_of extractedData key = (case entries extractedData key of Inl e \<Rightarrow> [] | Inr cs \<Rightarrow> cs)"

text \<open>The three kinds of children: the array, its table, the fields copied.\<close>

definition child_kinds :: "(string \<times> string \<times> string list) list" where
  "child_kinds =
     [(''deadlines'', ''program_deadlines'', deadline_fields),
      (''people'', ''program_people'', person_fields),
      (''links'', ''program_links'', link_fields)]"

text \<open>
  Every insert the three inner loops ask for on behalf of one program: one for each
  entry that matches the program, in the order of the source.
\<close>

definition child_requests :: "jsval \<Rightarrow> jsval \<Rightarrow> jsval \<Rightarrow> (string \<times> jsval) list" where
  "child_requests extractedData program programData =
     concat (map (\<lambda>(key, tbl, flds).
                    map (\<lambda>c. (tbl, JObj (child_payload flds programData c)))
                      (filter (matches program) (entries_of extractedData key)))
             child_kinds)"

text \<open>An entry of the insert log without the store's answer.\<close>

definition request :: "string \<times> jsval \<times> jsval option \<Rightarrow> string \<times> jsval" where
  "request a = (fst a, fst (snd a))"

text \<open>The rows the store wrote for a piece of the insert log.\<close>

fun accepted_rows :: "(string \<times> jsval \<times> jsval option) list \<Rightarrow> (string \<times> jsval) list" where
  "accepted_rows [] = []"
| "accepted_rows ((t, p, None) # as) = accepted_rows as"
| "accepted_rows ((t, p, Some row) # as) = (t, row) # accepted_rows as"

text \<open>The rows of one table among rows of several.\<close>

definition rows_of :: "string \<Rightarrow> (string \<times> jsval) list \<Rightarrow> jsval list" where
  "rows_of tbl rs = map snd (filter (\<lambda>x. fst x = tbl) rs)"

subsection \<open>Predicates on runs, and examples\<close>

text \<open>
  How a piece of a run changed the world: \<open>as\<close> are the inserts it asked for, with
  the store's answers; the rows written are the accepted ones, numbered from
  \<open>next_id\<close> on; nothing was sent to the completion service.
\<close>

definition grown :: "world \<Rightarrow> world \<Rightarrow> (string \<times> jsval \<times> jsval option) list \<Rightarrow> bool" where
  "grown w w' as \<longleftrightarrow>
     inserts w' = inserts w @ as \<and>
     db w' = db w @ accepted_rows as \<and>
     next_id w' = next_id w + length (accepted_rows as) \<and>
     completions w' = completions w \<and>
     map (\<lambda>x. field (snd x) ''id'') (accepted_rows as) =
       map (\<lambda>n. JNum (int n)) [next_id w ..< next_id w + length (accepted_rows as)]"

text \<open>A row an inner loop may write: the row of an entry that matches the program.\<close>

definition child_row :: "string \<Rightarrow> string list \<Rightarrow> jsval \<Rightarrow> jsval \<Rightarrow> jsval list \<Rightarrow> string \<times> jsval \<Rightarrow> bool" where
  "child_row tbl flds program pd cs x \<longleftrightarrow>
     (\<exists>c n. c \<in> set cs \<and> matches program c \<and> x = (tbl, stored n (child_payload flds pd c)))"

text \<open>A row the inner loops may write for one program.\<close>

definition attached :: "jsval \<Rightarrow> jsval \<Rightarrow> jsval \<Rightarrow> string \<times> jsval \<Rightarrow> bool" where
  "attached ed program pd x \<longleftrightarrow>
     (\<exists>(key, tbl, flds)\<in>set child_kinds. child_row tbl flds program pd (entries_of ed key) x)"

text \<open>The row the store wrote for some program of the array \<open>ps\<close>.\<close>

definition program_row :: "jsval \<Rightarrow> jsval list \<Rightarrow> jsval \<Rightarrow> bool" where
  "program_row u ps prow \<longleftrightarrow>
     (\<exists>p\<in>set ps. \<exists>payload n. program_payload u p = Inr payload \<and> prow = stored n payload)"

text \<open>
  The rows of a run are free of orphans: a row of \<^verbatim>\<open>research_programs\<close> is the
  row of a program of the array, and any other row is attached to a program row
  written before it.
\<close>

definition orphan_free :: "jsval \<Rightarrow> jsval \<Rightarrow> jsval list \<Rightarrow> (string \<times> jsval) list \<Rightarrow> bool" where
  "orphan_free u ed ps rows \<longleftrightarrow>
     (\<forall>pre x post. rows = pre @ x # post \<longrightarrow>
        (if fst x = ''research_programs'' then program_row u ps (snd x)
         else \<exists>prow. (''research_programs'', prow) \<in> set pre \<and> program_row u ps prow \<and>
                attached ed prow prow x))"

text \<open>The results \<open>res'\<close> are \<open>res\<close> with the rows \<open>rows\<close> pushed, each on its sequence.\<close>

definition pushed :: "results \<Rightarrow> results \<Rightarrow> (string \<times> jsval) list \<Rightarrow> bool" where
  "pushed res res' rows \<longleftrightarrow>
     rawResponse res' = rawResponse res \<and>
     programs res' = programs res @ rows_of ''research_programs'' rows \<and>
     deadlines res' = deadlines res @ rows_of ''program_deadlines'' rows \<and>
     people res' = people res @ rows_of ''program_people'' rows \<and>
     links res' = links res @ rows_of ''program_links'' rows"

text \<open>A value whose properties can be read.\<close>

definition readable :: "jsval \<Rightarrow> bool" where
  "readable v \<longleftrightarrow> v \<noteq> JUndefined \<and> v \<noteq> JNull"

text \<open>
  Extracted data on which no loop throws: each of the four arrays can be iterated
  (or is missing or falsy), and no entry is \<^verbatim>\<open>null\<close>.
\<close>

definition well_formed :: "jsval \<Rightarrow> bool" where
  "well_formed extractedData \<longleftrightarrow>
     list_all (\<lambda>key. case entries extractedData key of
                        Inl e \<Rightarrow> False
                      | Inr cs \<Rightarrow> list_all readable cs)
       [''programs'', ''deadlines'', ''people'', ''links'']"

text \<open>The object \<open>program_payload\<close> builds, where the program can be read.\<close>

definition payload_of :: "jsval \<Rightarrow> jsval \<Rightarrow> (string \<times> jsval) list" where
  "payload_of userId program =
     (case program_payload userId program of Inl e \<Rightarrow> [] | Inr payload \<Rightarrow> payload)"

text \<open>
  What the insert log \<open>as\<close> of a run of the outer loop over \<open>ps\<close> looks like: every
  program row written has all the requests of its matching entries in the log; the
  requests on \<^verbatim>\<open>research_programs\<close> are those of the programs, one each, in
  order; and a store that accepts every program has written one row for each.
\<close>

definition traced ::
  "env \<Rightarrow> jsval \<Rightarrow> jsval \<Rightarrow> jsval list \<Rightarrow> (string \<times> jsval \<times> jsval option) list \<Rightarrow> bool" where
  "traced env u ed ps as \<longleftrightarrow>
     (\<forall>prow\<in>set (rows_of ''research_programs'' (accepted_rows as)).
        set (child_requests ed prow prow) \<subseteq> set (map request as)) \<and>
     rows_of ''research_programs'' (map request as) = map (\<lambda>p. JObj (payload_of u p)) ps \<and>
     ((\<forall>v p. accepts env v ''research_programs'' p) \<longrightarrow>
        list_all2 (\<lambda>p row. \<exists>n. row = stored n (payload_of u p)) ps
          (rows_of ''research_programs'' (accepted_rows as)))"

text \<open>
  Three graphs: one program with one deadline; no program but one deadline; two
  programs with the same title and one deadline with that title.
\<close>

definition ex_graph :: jsval where
  "ex_graph = JObj
     [(''programs'', JArr [JObj [(''title'', JStr ''X''), (''university'', JStr ''MIT'')]]),
      (''deadlines'', JArr [JObj [(''title'', JStr ''due''), (''program_title'', JStr ''X'')]])]"

definition ex_empty_graph :: jsval where
  "ex_empty_graph = JObj
     [(''programs'', JArr []),
      (''deadlines'', JArr [JObj [(''title'', JStr ''due''), (''program_title'', JStr ''X'')]])]"

definition ex_dup_graph :: jsval where
  "ex_dup_graph = JObj
     [(''programs'', JArr [JObj [(''title'', JStr ''X''), (''university'', JStr ''MIT'')],
                           JObj [(''title'', JStr ''X''), (''university'', JStr ''ETH'')]]),
      (''deadlines'', JArr [JObj [(''title'', JStr ''due''), (''program_title'', JStr ''X'')]])]"

text \<open>
  A completion service that returns the message as the content of its first
  choice, a parser that knows three contents, and a store that accepts everything.
\<close>

definition ex_env :: env where
  "ex_env =
     \<lparr>OPENAI_API_KEY = Some ''sk'', SUPABASE_URL = Some ''https://db'',
      SUPABASE_SERVICE_ROLE_KEY = Some ''role'',
      createClient = (\<lambda>url key. None),
      json_parse = (\<lambda>v. if v = JStr ''one'' then Some ex_graph
                          else if v = JStr ''none'' then Some ex_empty_graph
                          else if v = JStr ''two'' then Some ex_dup_graph
                          else None),
      completion = (\<lambda>key message. Reply (Some (JObj [(''choices'',
         JArr [JObj [(''message'', JObj [(''content'', message)])]])]))),
      accepts = (\<lambda>w tbl payload. True)\<rparr>"

definition ex_world :: world where
  "ex_world = \<lparr>db = [], next_id = 0, inserts = [], completions = []\<rparr>"

definition ex_program_row :: jsval where
  "ex_program_row = JObj
     [(''id'', JNum 0), (''user_id'', JStr ''u1''), (''title'', JStr ''X''),
      (''university'', JStr ''MIT''), (''description'', JUndefined),
      (''program_type'', JUndefined), (''status'', JStr ''active'')]"

definition ex_deadline_row :: jsval where
  "ex_deadline_row = JObj
     [(''id'', JNum 1), (''program_id'', JNum 0), (''title'', JStr ''due''),
      (''deadline_date'', JUndefined), (''deadline_type'', JUndefined),
      (''description'', JUndefined)]"

text \<open>
  A graph with one program, two deadlines and a person for it, and a deadline for
  another title; a store that rejects every program; a store that rejects the rows
  titled \<open>due\<close>.
\<close>

definition ex_family_graph :: jsval where
  "ex_family_graph = JObj
     [(''programs'', JArr [JObj [(''title'', JStr ''X''), (''university'', JStr ''MIT'')]]),
      (''deadlines'', JArr [JObj [(''title'', JStr ''due''), (''program_title'', JStr ''X'')],
                            JObj [(''title'', JStr ''other''), (''program_title'', JStr ''Y'')],
                            JObj [(''title'', JStr ''late''), (''program_title'', JStr ''X'')]]),
      (''people'', JArr [JObj [(''name'', JStr ''Ada''), (''program_title'', JStr ''X'')]])]"

definition ex_program :: jsval where
  "ex_program = JObj [(''title'', JStr ''X''), (''university'', JStr ''MIT'')]"

definition ex_payload :: "(string \<times> jsval) list" where
  "ex_payload =
     [(''user_id'', JStr ''u1''), (''title'', JStr ''X''), (''university'', JStr ''MIT''),
      (''description'', JUndefined), (''program_type'', JUndefined), (''status'', JStr ''active'')]"

definition ex_results :: results where
  "ex_results = \<lparr>programs = [], deadlines = [], people = [], links = [], rawResponse = JStr ''raw''\<rparr>"

definition ex_no_program_env :: env where
  "ex_no_program_env = ex_env\<lparr>accepts := (\<lambda>w tbl payload. tbl \<noteq> ''research_programs'')\<rparr>"

definition ex_picky_env :: env where
  "ex_picky_env = ex_env\<lparr>accepts := (\<lambda>w tbl payload. map_of payload ''title'' \<noteq> Some (JStr ''due''))\<rparr>"


text \<open>The deadline of the first example graph, and the object inserted for it.\<close>

definition ex_deadline :: jsval where
  "ex_deadline = JObj [(''title'', JStr ''due''), (''program_title'', JStr ''X'')]"

definition ex_deadline_payload :: "(string \<times> jsval) list" where
  "ex_deadline_payload =
     [(''program_id'', JNum 0), (''title'', JStr ''due''), (''deadline_date'', JUndefined),
      (''deadline_type'', JUndefined), (''description'', JUndefined)]"

definition ex_request :: "jsval \<Rightarrow> request" where
  "ex_request b = \<lparr>method = ''POST'', json = Some b\<rparr>"








section \<open>Properties\<close>

subsection \<open>Reading values\<close>

lemma get_Inr_field: "get v k = Inr x \<Longrightarrow> field v k = x"
  by (simp add: field_def)

lemma get_indep: "get v k = Inr x \<Longrightarrow> \<exists>y. get v k' = Inr y"
  by (cases v) auto

lemma props_ok: "get v k0 = Inr x \<Longrightarrow> props v ks = Inr (map (\<lambda>k. (k, field v k)) ks)"
proof (induction ks)
  case Nil
  show ?case by simp
next
  case (Cons k ks)
  from Cons.prems obtain y where "get v k = Inr y" using get_indep by blast
  with Cons show ?case by (simp add: field_def)
qed

lemma field_stored_id: "field (stored n p) ''id'' = JNum (int n)"
  by (simp add: field_def stored_def)

lemma get_stored_id: "get (stored n p) ''id'' = Inr (JNum (int n))"
  by (simp add: stored_def)

subsection \<open>One insert\<close>

lemma insert_row_accepted:
  "accepts env w tbl p \<Longrightarrow>
   insert_row env tbl p w =
     (Some (stored (next_id w) p),
      w\<lparr>inserts := inserts w @ [(tbl, JObj p, Some (stored (next_id w) p))],
        db := db w @ [(tbl, stored (next_id w) p)],
        next_id := Suc (next_id w)\<rparr>)"
  by (simp add: insert_row_def Let_def)

lemma insert_row_rejected:
  "\<not> accepts env w tbl p \<Longrightarrow>
   insert_row env tbl p w = (None, w\<lparr>inserts := inserts w @ [(tbl, JObj p, None)]\<rparr>)"
  by (simp add: insert_row_def)

lemma accepted_rows_append: "accepted_rows (as @ bs) = accepted_rows as @ accepted_rows bs"
  by (induction as rule: accepted_rows.induct) simp_all

lemma grown_refl: "grown w w []"
  by (simp add: grown_def)

lemma grown_trans:
  assumes a: "grown w w1 as" and b: "grown w1 w2 bs"
  shows "grown w w2 (as @ bs)"
proof -
  let ?m = "length (accepted_rows as)" and ?n = "length (accepted_rows bs)"
  have "[next_id w ..< next_id w + (?m + ?n)] =
        [next_id w ..< next_id w + ?m] @ [next_id w + ?m ..< next_id w + ?m + ?n]"
    by (metis add.assoc le_add1 upt_add_eq_append)
  with a b show ?thesis by (simp add: grown_def accepted_rows_append)
qed

lemma grown_rejected:
  "insert_row env tbl p w = (None, w1) \<Longrightarrow> grown w w1 [(tbl, JObj p, None)]"
  by (auto simp: grown_def insert_row_def Let_def split: if_splits)

lemma grown_accepted:
  "insert_row env tbl p w = (Some row, w1) \<Longrightarrow>
   row = stored (next_id w) p \<and> grown w w1 [(tbl, JObj p, Some row)]"
  by (auto simp: grown_def insert_row_def Let_def field_stored_id split: if_splits)

subsection \<open>An inner loop\<close>

lemma insert_children_match:
  assumes "get child ''program_title'' = Inr pt" "get program ''title'' = Inr t" "strict_eq pt t"
    "get pd ''id'' = Inr pid"
  shows "insert_children env tbl flds program pd (child # rest) acc w =
         (case insert_row env tbl (child_payload flds pd child) w of
            (None, w1) \<Rightarrow> insert_children env tbl flds program pd rest acc w1
          | (Some childData, w1) \<Rightarrow> insert_children env tbl flds program pd rest (acc @ [childData]) w1)"
  using assms props_ok[OF assms(1), of flds] by (simp add: child_payload_def get_Inr_field)

lemma child_row_mono: "child_row tbl flds program pd cs x \<Longrightarrow> child_row tbl flds program pd (c # cs) x"
  by (auto simp: child_row_def)

lemma insert_children_summary:
  "insert_children env tbl flds program pd cs acc w = (r, w') \<Longrightarrow>
   \<exists>as. grown w w' as \<and> (\<forall>a\<in>set as. fst a = tbl) \<and>
        (\<forall>x\<in>set (accepted_rows as). child_row tbl flds program pd cs x) \<and>
        (\<forall>acc'. r = Inr acc' \<longrightarrow>
           acc' = acc @ map snd (accepted_rows as) \<and>
           map request as = map (\<lambda>c. (tbl, JObj (child_payload flds pd c))) (filter (matches program) cs))"
proof (induction cs arbitrary: acc w)
  case Nil
  then show ?case using grown_refl by (intro exI[of _ "[]"]) auto
next
  case (Cons child rest)
  let ?P = "\<lambda>acc w. \<exists>as. grown w w' as \<and> (\<forall>a\<in>set as. fst a = tbl) \<and>
        (\<forall>x\<in>set (accepted_rows as). child_row tbl flds program pd (child # rest) x) \<and>
        (\<forall>acc'. r = Inr acc' \<longrightarrow>
           acc' = acc @ map snd (accepted_rows as) \<and>
           map request as = map (\<lambda>c. (tbl, JObj (child_payload flds pd c)))
                              (filter (matches program) (child # rest)))"
  have stop: "?P acc w" if "r = Inl e" "w' = w" for e
    using that grown_refl by (intro exI[of _ "[]"]) simp
  show ?case
  proof (cases "get child ''program_title''")
    case (Inl e)
    with Cons.prems have "r = Inl e" "w' = w" by simp_all
    then show ?thesis by (rule stop)
  next
    case pt: (Inr pt)
    show ?thesis
    proof (cases "get program ''title''")
      case (Inl e)
      with pt Cons.prems have "r = Inl e" "w' = w" by simp_all
      then show ?thesis by (rule stop)
    next
      case t: (Inr t)
      show ?thesis
      proof (cases "strict_eq pt t")
        case False
        hence nm: "\<not> matches program child" using pt t by (simp add: matches_def)
        from False pt t Cons.prems
        have "insert_children env tbl flds program pd rest acc w = (r, w')" by simp
        from Cons.IH[OF this] obtain as where n: "grown w w' as" "\<forall>a\<in>set as. fst a = tbl"
          "\<forall>x\<in>set (accepted_rows as). child_row tbl flds program pd rest x"
          "\<forall>acc'. r = Inr acc' \<longrightarrow> acc' = acc @ map snd (accepted_rows as) \<and>
             map request as = map (\<lambda>c. (tbl, JObj (child_payload flds pd c))) (filter (matches program) rest)"
          by blast
        from n(3) have "\<forall>x\<in>set (accepted_rows as). child_row tbl flds program pd (child # rest) x"
          using child_row_mono by blast
        with n(1,2,4) nm show ?thesis by (intro exI[of _ as]) simp
      next
        case True
        hence m: "matches program child" using pt t by (simp add: matches_def)
        show ?thesis
        proof (cases "get pd ''id''")
          case (Inl e)
          with pt t True Cons.prems have "r = Inl e" "w' = w" by simp_all
          then show ?thesis by (rule stop)
        next
          case (Inr pid)
          note step = insert_children_match[OF pt t True Inr, of env tbl flds rest acc w]
          let ?p = "child_payload flds pd child"
          obtain ro w1 where ir: "insert_row env tbl ?p w = (ro, w1)"
            by (cases "insert_row env tbl ?p w")
          define a where "a = (tbl, JObj ?p, ro)"
          define acc1 where "acc1 = (case ro of None \<Rightarrow> acc | Some row \<Rightarrow> acc @ [row])"
          have g: "grown w w1 [a]"
            using ir grown_rejected grown_accepted unfolding a_def by (cases ro) auto
          have rows: "\<forall>x\<in>set (accepted_rows [a]). child_row tbl flds program pd (child # rest) x"
          proof (cases ro)
            case None
            then show ?thesis by (simp add: a_def)
          next
            case (Some row)
            with ir have "row = stored (next_id w) ?p" using grown_accepted by blast
            with Some m show ?thesis by (auto simp: a_def child_row_def)
          qed
          have acc1: "acc1 = acc @ map snd (accepted_rows [a])"
            by (cases ro) (simp_all add: a_def acc1_def)
          from ir step Cons.prems
          have "insert_children env tbl flds program pd rest acc1 w1 = (r, w')"
            by (cases ro) (simp_all add: acc1_def)
          from Cons.IH[OF this] obtain as where n: "grown w1 w' as" "\<forall>a\<in>set as. fst a = tbl"
            "\<forall>x\<in>set (accepted_rows as). child_row tbl flds program pd rest x"
            "\<forall>acc'. r = Inr acc' \<longrightarrow> acc' = acc1 @ map snd (accepted_rows as) \<and>
               map request as = map (\<lambda>c. (tbl, JObj (child_payload flds pd c))) (filter (matches program) rest)"
            by blast
          have 1: "grown w w' ([a] @ as)" using grown_trans[OF g n(1)] .
          have 2: "\<forall>b\<in>set ([a] @ as). fst b = tbl" using n(2) by (simp add: a_def)
          have 3: "\<forall>x\<in>set (accepted_rows ([a] @ as)). child_row tbl flds program pd (child # rest) x"
            using rows n(3) child_row_mono unfolding accepted_rows_append by auto
          have 4: "\<forall>acc'. r = Inr acc' \<longrightarrow> acc' = acc @ map snd (accepted_rows ([a] @ as)) \<and>
               map request ([a] @ as) = map (\<lambda>c. (tbl, JObj (child_payload flds pd c)))
                              (filter (matches program) (child # rest))"
            using n(4) m acc1 unfolding accepted_rows_append by (simp add: a_def request_def)
          from 1 2 3 4 show ?thesis by blast
        qed
      qed
    qed
  qed
qed

subsection \<open>The three inner loops of one program\<close>

lemma entries_of_Inr: "entries ed key = Inr cs \<Longrightarrow> entries_of ed key = cs"
  by (simp add: entries_of_def)

lemma insert_associated_summary:
  assumes "insert_associated env key tbl flds ed program pd acc w = (r, w')"
  shows "\<exists>as. grown w w' as \<and> (\<forall>a\<in>set as. fst a = tbl) \<and>
        (\<forall>x\<in>set (accepted_rows as). child_row tbl flds program pd (entries_of ed key) x) \<and>
        (\<forall>acc'. r = Inr acc' \<longrightarrow>
           acc' = acc @ map snd (accepted_rows as) \<and>
           map request as = map (\<lambda>c. (tbl, JObj (child_payload flds pd c)))
                              (filter (matches program) (entries_of ed key)))"
proof (cases "entries ed key")
  case (Inl e)
  with assms have "r = Inl e" "w' = w" by (simp_all add: insert_associated_def)
  then show ?thesis using grown_refl by (intro exI[of _ "[]"]) simp
next
  case (Inr cs)
  with assms have "insert_children env tbl flds program pd cs acc w = (r, w')"
    by (simp add: insert_associated_def)
  from insert_children_summary[OF this] show ?thesis
    unfolding entries_of_Inr[OF Inr] .
qed

lemma accepted_rows_fst: "\<forall>a\<in>set as. fst a = tbl \<Longrightarrow> \<forall>x\<in>set (accepted_rows as). fst x = tbl"
  by (induction as rule: accepted_rows.induct) simp_all

lemma rows_of_append: "rows_of tbl (xs @ ys) = rows_of tbl xs @ rows_of tbl ys"
  by (simp add: rows_of_def)

lemma rows_of_same: "\<forall>x\<in>set xs. fst x = tbl \<Longrightarrow> rows_of tbl xs = map snd xs"
  by (simp add: rows_of_def)

lemma rows_of_other: "\<forall>x\<in>set xs. fst x = t \<Longrightarrow> t \<noteq> tbl \<Longrightarrow> rows_of tbl xs = []"
  by (auto simp: rows_of_def filter_empty_conv)

lemma insert_all_children_summary:
  assumes "insert_all_children env ed program pd res w = (r, w')"
  shows "\<exists>as. grown w w' as \<and> (\<forall>a\<in>set as. fst a \<noteq> ''research_programs'') \<and>
        (\<forall>x\<in>set (accepted_rows as). attached ed program pd x) \<and>
        (\<forall>res'. r = Inr res' \<longrightarrow>
           programs res' = programs res \<and> rawResponse res' = rawResponse res \<and>
           deadlines res' = deadlines res @ rows_of ''program_deadlines'' (accepted_rows as) \<and>
           people res' = people res @ rows_of ''program_people'' (accepted_rows as) \<and>
           links res' = links res @ rows_of ''program_links'' (accepted_rows as) \<and>
           map request as = child_requests ed program pd)"
proof -
  let ?Q = "\<lambda>key tbl flds acc r w w' as. grown w w' as \<and> (\<forall>a\<in>set as. fst a = tbl) \<and>
        (\<forall>x\<in>set (accepted_rows as). child_row tbl flds program pd (entries_of ed key) x) \<and>
        (\<forall>acc'. r = Inr acc' \<longrightarrow>
           acc' = acc @ map snd (accepted_rows as) \<and>
           map request as = map (\<lambda>c. (tbl, JObj (child_payload flds pd c)))
                              (filter (matches program) (entries_of ed key)))"
  have att: "attached ed program pd x"
    if "child_row tbl flds program pd (entries_of ed key) x" "(key, tbl, flds) \<in> set child_kinds"
    for key tbl flds x
    using that unfolding attached_def by blast
  obtain r1 w1 where s1: "insert_associated env ''deadlines'' ''program_deadlines'' deadline_fields
             ed program pd (deadlines res) w = (r1, w1)"
    by (cases "insert_associated env ''deadlines'' ''program_deadlines'' deadline_fields
             ed program pd (deadlines res) w")
  from insert_associated_summary[OF s1] obtain as1
    where a1: "?Q ''deadlines'' ''program_deadlines'' deadline_fields (deadlines res) r1 w w1 as1"
    by blast
  have at1: "\<forall>x\<in>set (accepted_rows as1). attached ed program pd x"
    using a1 att[of "''program_deadlines''" deadline_fields "''deadlines''"]
    by (simp add: child_kinds_def)
  have f1: "\<forall>x\<in>set (accepted_rows as1). fst x = ''program_deadlines''"
    using a1 accepted_rows_fst by blast
  show ?thesis
  proof (cases r1)
    case (Inl e)
    with s1 assms have "r = Inl e" "w' = w1" by (simp_all add: insert_all_children_def)
    with a1 at1 show ?thesis by (intro exI[of _ as1]) auto
  next
    case ds: (Inr ds)
    obtain r2 w2 where s2: "insert_associated env ''people'' ''program_people'' person_fields
             ed program pd (people res) w1 = (r2, w2)"
      by (cases "insert_associated env ''people'' ''program_people'' person_fields
             ed program pd (people res) w1")
    from insert_associated_summary[OF s2] obtain as2
      where a2: "?Q ''people'' ''program_people'' person_fields (people res) r2 w1 w2 as2"
      by blast
    have at2: "\<forall>x\<in>set (accepted_rows as2). attached ed program pd x"
      using a2 att[of "''program_people''" person_fields "''people''"]
      by (simp add: child_kinds_def)
    have f2: "\<forall>x\<in>set (accepted_rows as2). fst x = ''program_people''"
      using a2 accepted_rows_fst by blast
    have g2: "grown w w2 (as1 @ as2)" using grown_trans a1 a2 by blast
    show ?thesis
    proof (cases r2)
      case (Inl e)
      with s1 ds s2 assms have "r = Inl e" "w' = w2" by (simp_all add: insert_all_children_def)
      with g2 a1 a2 at1 at2 show ?thesis
        by (intro exI[of _ "as1 @ as2"]) (auto simp: accepted_rows_append)
    next
      case ps: (Inr ps)
      obtain r3 w3 where s3: "insert_associated env ''links'' ''program_links'' link_fields
               ed program pd (links res) w2 = (r3, w3)"
        by (cases "insert_associated env ''links'' ''program_links'' link_fields
               ed program pd (links res) w2")
      from insert_associated_summary[OF s3] obtain as3
        where a3: "?Q ''links'' ''program_links'' link_fields (links res) r3 w2 w3 as3"
        by blast
      have at3: "\<forall>x\<in>set (accepted_rows as3). attached ed program pd x"
        using a3 att[of "''program_links''" link_fields "''links''"]
        by (simp add: child_kinds_def)
      have f3: "\<forall>x\<in>set (accepted_rows as3). fst x = ''program_links''"
        using a3 accepted_rows_fst by blast
      have g3: "grown w w3 (as1 @ as2 @ as3)" using grown_trans[OF g2] a3 by fastforce
      have tb: "\<forall>a\<in>set (as1 @ as2 @ as3). fst a \<noteq> ''research_programs''"
        using a1 a2 a3 by auto
      have at: "\<forall>x\<in>set (accepted_rows (as1 @ as2 @ as3)). attached ed program pd x"
        using at1 at2 at3 by (auto simp: accepted_rows_append)
      show ?thesis
      proof (cases r3)
        case (Inl e)
        with s1 ds s2 ps s3 assms have "r = Inl e" "w' = w3"
          by (simp_all add: insert_all_children_def)
        with g3 tb at show ?thesis by (intro exI[of _ "as1 @ as2 @ as3"]) simp
      next
        case ls: (Inr ls)
        with s1 ds s2 ps s3 assms
        have r: "r = Inr (res\<lparr>deadlines := ds, people := ps, links := ls\<rparr>)" and w': "w' = w3"
          by (simp_all add: insert_all_children_def)
        have d: "rows_of ''program_deadlines'' (accepted_rows (as1 @ as2 @ as3)) = map snd (accepted_rows as1)"
          using rows_of_same[OF f1] rows_of_other[OF f2] rows_of_other[OF f3]
          by (simp add: accepted_rows_append rows_of_append)
        have p: "rows_of ''program_people'' (accepted_rows (as1 @ as2 @ as3)) = map snd (accepted_rows as2)"
          using rows_of_other[OF f1] rows_of_same[OF f2] rows_of_other[OF f3]
          by (simp add: accepted_rows_append rows_of_append)
        have l: "rows_of ''program_links'' (accepted_rows (as1 @ as2 @ as3)) = map snd (accepted_rows as3)"
          using rows_of_other[OF f1] rows_of_other[OF f2] rows_of_same[OF f3]
          by (simp add: accepted_rows_append rows_of_append)
        have q: "map request (as1 @ as2 @ as3) = child_requests ed program pd"
          using a1 a2 a3 ds ps ls by (simp add: child_requests_def child_kinds_def)
        have "\<forall>res'. r = Inr res' \<longrightarrow>
           programs res' = programs res \<and> rawResponse res' = rawResponse res \<and>
           deadlines res' = deadlines res @ rows_of ''program_deadlines'' (accepted_rows (as1 @ as2 @ as3)) \<and>
           people res' = people res @ rows_of ''program_people'' (accepted_rows (as1 @ as2 @ as3)) \<and>
           links res' = links res @ rows_of ''program_links'' (accepted_rows (as1 @ as2 @ as3)) \<and>
           map request (as1 @ as2 @ as3) = child_requests ed program pd"
          unfolding d p l q using r a1 a2 a3 ds ps ls by simp
        with g3 tb at w' show ?thesis by blast
      qed
    qed
  qed
qed

subsection \<open>The outer loop\<close>

lemma program_payload_Inr:
  assumes "program_payload u program = Inr payload"
  shows "get (stored n payload) ''title'' = get program ''title''"
    and "\<exists>t. get program ''title'' = Inr t"
proof -
  from assms obtain s where s: "get program ''status'' = Inr s"
    by (auto simp: program_payload_def split: sum.splits)
  then obtain t where t: "get program ''title'' = Inr t" using get_indep by blast
  from assms s props_ok[OF s, of "[''title'', ''university'', ''description'', ''program_type'']"]
  have "payload = (''user_id'', u) # (''title'', field program ''title'') #
          [(''university'', field program ''university''), (''description'', field program ''description''),
           (''program_type'', field program ''program_type''), (''status'', or_else s (JStr ''active''))]"
    by (simp add: program_payload_def)
  then show "get (stored n payload) ''title'' = get program ''title''"
    using t by (simp add: stored_def field_def)
  from t show "\<exists>t. get program ''title'' = Inr t" by blast
qed

lemma matches_stored:
  assumes "program_payload u program = Inr payload"
  shows "matches (stored n payload) c = matches program c"
  unfolding matches_def program_payload_Inr(1)[OF assms] ..

lemma child_requests_stored:
  "program_payload u program = Inr payload \<Longrightarrow>
   child_requests ed (stored n payload) pd = child_requests ed program pd"
  by (simp add: child_requests_def matches_stored cong: filter_cong)

lemma attached_stored:
  "program_payload u program = Inr payload \<Longrightarrow>
   attached ed (stored n payload) pd x = attached ed program pd x"
  by (simp add: attached_def child_row_def matches_stored)

text \<open>One iteration of the outer loop, by cases.\<close>

lemma insert_programs_step:
  assumes "insert_programs env u ed (program # rest) res w = (r, w')"
  obtains
    (throws) e where "program_payload u program = Inl e" "r = Inl e" "w' = w"
  | (rejected) payload w1 where "program_payload u program = Inr payload"
      "insert_row env ''research_programs'' payload w = (None, w1)"
      "insert_programs env u ed rest res w1 = (r, w')"
  | (child_throws) payload pd w1 e where "program_payload u program = Inr payload"
      "insert_row env ''research_programs'' payload w = (Some pd, w1)"
      "insert_all_children env ed program pd (res\<lparr>programs := programs res @ [pd]\<rparr>) w1 = (Inl e, w')"
      "r = Inl e"
  | (accepted) payload pd w1 res2 w2 where "program_payload u program = Inr payload"
      "insert_row env ''research_programs'' payload w = (Some pd, w1)"
      "insert_all_children env ed program pd (res\<lparr>programs := programs res @ [pd]\<rparr>) w1 = (Inr res2, w2)"
      "insert_programs env u ed rest res2 w2 = (r, w')"
proof (cases "program_payload u program")
  case (Inl e)
  with assms show ?thesis using throws by simp
next
  case (Inr payload)
  obtain ro w1 where ir: "insert_row env ''research_programs'' payload w = (ro, w1)"
    by (cases "insert_row env ''research_programs'' payload w")
  show ?thesis
  proof (cases ro)
    case None
    with ir have x: "insert_row env ''research_programs'' payload w = (None, w1)" by simp
    from Inr x assms have "insert_programs env u ed rest res w1 = (r, w')" by simp
    with Inr x show ?thesis by (rule rejected)
  next
    case (Some pd)
    with ir have x: "insert_row env ''research_programs'' payload w = (Some pd, w1)" by simp
    obtain r2 w2 where ac: "insert_all_children env ed program pd
        (res\<lparr>programs := programs res @ [pd]\<rparr>) w1 = (r2, w2)"
      by (cases "insert_all_children env ed program pd (res\<lparr>programs := programs res @ [pd]\<rparr>) w1")
    show ?thesis
    proof (cases r2)
      case (Inl e)
      from Inr x ac Inl assms have "r = Inl e" "w' = w2" by simp_all
      with ac Inl have y: "insert_all_children env ed program pd
        (res\<lparr>programs := programs res @ [pd]\<rparr>) w1 = (Inl e, w')" by simp
      from Inr x y \<open>r = Inl e\<close> show ?thesis by (rule child_throws)
    next
      case r2: (Inr res2)
      with ac have y: "insert_all_children env ed program pd
        (res\<lparr>programs := programs res @ [pd]\<rparr>) w1 = (Inr res2, w2)" by simp
      from Inr x y assms have "insert_programs env u ed rest res2 w2 = (r, w')" by simp
      with Inr x y show ?thesis by (rule accepted)
    qed
  qed
qed

lemma orphan_free_Nil: "orphan_free u ed ps []"
  by (simp add: orphan_free_def)

lemma program_row_mono: "program_row u ps prow \<Longrightarrow> program_row u (p # ps) prow"
  by (auto simp: program_row_def)

lemma orphan_free_mono: "orphan_free u ed ps rows \<Longrightarrow> orphan_free u ed (p # ps) rows"
  unfolding orphan_free_def using program_row_mono by (metis (no_types, lifting))

lemma orphan_free_append:
  assumes a: "orphan_free u ed ps as" and b: "orphan_free u ed ps bs"
  shows "orphan_free u ed ps (as @ bs)"
  unfolding orphan_free_def
proof (intro allI impI)
  fix pre x post
  assume eq: "as @ bs = pre @ x # post"
  let ?G = "\<lambda>pre. if fst x = ''research_programs'' then program_row u ps (snd x)
         else \<exists>prow. (''research_programs'', prow) \<in> set pre \<and> program_row u ps prow \<and>
                attached ed prow prow x"
  from eq obtain us where "as = pre @ us \<and> us @ bs = x # post \<or> as @ us = pre \<and> bs = us @ x # post"
    unfolding append_eq_append_conv2 by blast
  then show "?G pre"
  proof
    assume h: "as = pre @ us \<and> us @ bs = x # post"
    show ?thesis
    proof (cases us)
      case Nil
      with h have "bs = [] @ x # post" "pre = as" by simp_all
      with b have "?G []" unfolding orphan_free_def by blast
      then show ?thesis by (auto split: if_splits)
    next
      case (Cons y ys)
      with h have "as = pre @ x # ys" by simp
      with a show ?thesis unfolding orphan_free_def by blast
    qed
  next
    assume h: "as @ us = pre \<and> bs = us @ x # post"
    with b have "?G us" unfolding orphan_free_def by blast
    moreover from h have "set us \<subseteq> set pre" by auto
    ultimately show ?thesis by (auto split: if_splits)
  qed
qed

lemma orphan_free_block:
  assumes p: "program_row u ps prow"
    and ch: "\<forall>x\<in>set ch. fst x \<noteq> ''research_programs'' \<and> attached ed prow prow x"
  shows "orphan_free u ed ps ((''research_programs'', prow) # ch)"
  unfolding orphan_free_def
proof (intro allI impI)
  fix pre x post
  assume eq: "(''research_programs'', prow) # ch = pre @ x # post"
  show "if fst x = ''research_programs'' then program_row u ps (snd x)
         else \<exists>prow. (''research_programs'', prow) \<in> set pre \<and> program_row u ps prow \<and>
                attached ed prow prow x"
  proof (cases pre)
    case Nil
    with eq have "x = (''research_programs'', prow)" by simp
    with p show ?thesis by simp
  next
    case (Cons y ys)
    with eq have y: "y = (''research_programs'', prow)" and "ch = ys @ x # post" by simp_all
    hence "x \<in> set ch" by simp
    with ch have "fst x \<noteq> ''research_programs''" "attached ed prow prow x" by auto
    with p y Cons show ?thesis by auto
  qed
qed

lemma accepted_rows_not_table:
  "\<forall>a\<in>set as. fst a \<noteq> tbl \<Longrightarrow> \<forall>x\<in>set (accepted_rows as). fst x \<noteq> tbl"
  by (induction as rule: accepted_rows.induct) simp_all

lemma rows_of_none: "\<forall>x\<in>set xs. fst x \<noteq> tbl \<Longrightarrow> rows_of tbl xs = []"
  by (auto simp: rows_of_def filter_empty_conv)

lemma pushed_refl: "pushed res res []"
  by (simp add: pushed_def rows_of_def)

lemma pushed_trans: "pushed a b xs \<Longrightarrow> pushed b c ys \<Longrightarrow> pushed a c (xs @ ys)"
  by (simp add: pushed_def rows_of_append)

lemma pushed_program:
  assumes nt: "\<forall>x\<in>set rows. fst x \<noteq> ''research_programs''"
    and "programs res2 = programs res @ [pd]" "rawResponse res2 = rawResponse res"
      "deadlines res2 = deadlines res @ rows_of ''program_deadlines'' rows"
      "people res2 = people res @ rows_of ''program_people'' rows"
      "links res2 = links res @ rows_of ''program_links'' rows"
  shows "pushed res res2 ((''research_programs'', pd) # rows)"
proof -
  have "rows_of ''research_programs'' ((''research_programs'', pd) # rows) = [pd]"
    using rows_of_none[OF nt] by (simp add: rows_of_def)
  moreover have "rows_of t ((''research_programs'', pd) # rows) = rows_of t rows"
    if "t \<noteq> ''research_programs''" for t
    using that by (simp add: rows_of_def)
  ultimately show ?thesis using assms(2-) by (simp add: pushed_def)
qed

lemma insert_programs_rows:
  "insert_programs env u ed ps res w = (r, w') \<Longrightarrow>
   \<exists>as. grown w w' as \<and> orphan_free u ed ps (accepted_rows as) \<and>
        (\<forall>res'. r = Inr res' \<longrightarrow> pushed res res' (accepted_rows as))"
proof (induction ps arbitrary: res w)
  case Nil
  hence "r = Inr res" "w' = w" by simp_all
  then show ?case using grown_refl orphan_free_Nil pushed_refl
    by (intro exI[of _ "[]"]) simp
next
  case (Cons program rest)
  have final: ?case if "grown w w' as" "orphan_free u ed (program # rest) (accepted_rows as)"
    "\<forall>res'. r = Inr res' \<longrightarrow> pushed res res' (accepted_rows as)" for as
    by (rule exI[of _ as], intro conjI) (fact that)+
  from Cons.prems show ?case
  proof (cases rule: insert_programs_step)
    case (throws e)
    have "grown w w' []" using throws(3) grown_refl by simp
    moreover have "orphan_free u ed (program # rest) (accepted_rows [])"
      using orphan_free_Nil by simp
    moreover have "\<forall>res'. r = Inr res' \<longrightarrow> pushed res res' (accepted_rows [])"
      using throws(2) by simp
    ultimately show ?thesis by (rule final)
  next
    case (rejected payload w1)
    from Cons.IH[OF rejected(3)] obtain as where n: "grown w1 w' as"
      "orphan_free u ed rest (accepted_rows as)"
      "\<forall>res'. r = Inr res' \<longrightarrow> pushed res res' (accepted_rows as)" by blast
    let ?a = "(''research_programs'', JObj payload, None)"
    have "grown w w' ([?a] @ as)"
      using grown_trans[OF grown_rejected[OF rejected(2)] n(1)] .
    moreover have "orphan_free u ed (program # rest) (accepted_rows ([?a] @ as))"
      using orphan_free_mono[OF n(2)] by simp
    moreover have "\<forall>res'. r = Inr res' \<longrightarrow> pushed res res' (accepted_rows ([?a] @ as))"
      using n(3) by simp
    ultimately show ?thesis by (rule final)
  next
    case (child_throws payload pd w1 e)
    from grown_accepted[OF child_throws(2)]
    have pd: "pd = stored (next_id w) payload"
      and g1: "grown w w1 [(''research_programs'', JObj payload, Some pd)]" by blast+
    from insert_all_children_summary[OF child_throws(3)] obtain cs where c: "grown w1 w' cs"
      "\<forall>a\<in>set cs. fst a \<noteq> ''research_programs''"
      "\<forall>x\<in>set (accepted_rows cs). attached ed program pd x" by blast
    let ?as = "[(''research_programs'', JObj payload, Some pd)] @ cs"
    have pr: "program_row u (program # rest) pd"
      unfolding program_row_def using child_throws(1) pd by auto
    have at: "attached ed pd pd x = attached ed program pd x" for x
      unfolding pd by (rule attached_stored[OF child_throws(1)])
    have ch: "\<forall>x\<in>set (accepted_rows cs). fst x \<noteq> ''research_programs'' \<and> attached ed pd pd x"
      using c(3) accepted_rows_not_table[OF c(2)] unfolding at by blast
    have "grown w w' ?as" using grown_trans[OF g1 c(1)] .
    moreover have "orphan_free u ed (program # rest) (accepted_rows ?as)"
      using orphan_free_block[OF pr ch] by simp
    moreover have "\<forall>res'. r = Inr res' \<longrightarrow> pushed res res' (accepted_rows ?as)"
      using child_throws(4) by simp
    ultimately show ?thesis by (rule final)
  next
    case (accepted payload pd w1 res2 w2)
    from grown_accepted[OF accepted(2)]
    have pd: "pd = stored (next_id w) payload"
      and g1: "grown w w1 [(''research_programs'', JObj payload, Some pd)]" by blast+
    from insert_all_children_summary[OF accepted(3)] obtain cs where c: "grown w1 w2 cs"
      "\<forall>a\<in>set cs. fst a \<noteq> ''research_programs''"
      "\<forall>x\<in>set (accepted_rows cs). attached ed program pd x"
      and c4: "\<forall>res'. Inr res2 = Inr res' \<longrightarrow>
           programs res' = programs (res\<lparr>programs := programs res @ [pd]\<rparr>) \<and>
           rawResponse res' = rawResponse (res\<lparr>programs := programs res @ [pd]\<rparr>) \<and>
           deadlines res' = deadlines (res\<lparr>programs := programs res @ [pd]\<rparr>) @ rows_of ''program_deadlines'' (accepted_rows cs) \<and>
           people res' = people (res\<lparr>programs := programs res @ [pd]\<rparr>) @ rows_of ''program_people'' (accepted_rows cs) \<and>
           links res' = links (res\<lparr>programs := programs res @ [pd]\<rparr>) @ rows_of ''program_links'' (accepted_rows cs) \<and>
           map request cs = child_requests ed program pd"
      by blast
    from c4 have r2: "programs res2 = programs res @ [pd]" "rawResponse res2 = rawResponse res"
      "deadlines res2 = deadlines res @ rows_of ''program_deadlines'' (accepted_rows cs)"
      "people res2 = people res @ rows_of ''program_people'' (accepted_rows cs)"
      "links res2 = links res @ rows_of ''program_links'' (accepted_rows cs)"
      by simp_all
    from Cons.IH[OF accepted(4)] obtain as where n: "grown w2 w' as"
      "orphan_free u ed rest (accepted_rows as)"
      "\<forall>res'. r = Inr res' \<longrightarrow> pushed res2 res' (accepted_rows as)" by blast
    let ?b = "[(''research_programs'', JObj payload, Some pd)] @ cs"
    have nt: "\<forall>x\<in>set (accepted_rows cs). fst x \<noteq> ''research_programs''"
      using accepted_rows_not_table[OF c(2)] .
    have pr: "program_row u (program # rest) pd"
      unfolding program_row_def using accepted(1) pd by auto
    have at: "attached ed pd pd x = attached ed program pd x" for x
      unfolding pd by (rule attached_stored[OF accepted(1)])
    have ch: "\<forall>x\<in>set (accepted_rows cs). fst x \<noteq> ''research_programs'' \<and> attached ed pd pd x"
      using c(3) nt unfolding at by blast
    have "orphan_free u ed (program # rest) (accepted_rows ?b)"
      using orphan_free_block[OF pr ch] by simp
    from orphan_free_append[OF this orphan_free_mono[OF n(2)]]
    have 1: "orphan_free u ed (program # rest) (accepted_rows (?b @ as))"
      unfolding accepted_rows_append .
    have 2: "grown w w' (?b @ as)" using grown_trans[OF grown_trans[OF g1 c(1)] n(1)] .
    have p1: "pushed res res2 (accepted_rows ?b)"
      using pushed_program[OF nt r2] by simp
    have 3: "\<forall>res'. r = Inr res' \<longrightarrow> pushed res res' (accepted_rows (?b @ as))"
      unfolding accepted_rows_append[of ?b as] using pushed_trans[OF p1] n(3) by blast
    from 2 1 3 show ?thesis by (rule final)
  qed
qed

subsection \<open>The whole persist step\<close>

lemma persist_rows:
  assumes "persist env u ed content w = (r, w')"
  shows "\<exists>as. grown w w' as \<and>
           orphan_free u ed (entries_of ed ''programs'') (accepted_rows as) \<and>
           (\<forall>res'. r = Inr res' \<longrightarrow>
              pushed \<lparr>programs = [], deadlines = [], people = [], links = [], rawResponse = content\<rparr>
                res' (accepted_rows as))"
proof (cases "entries ed ''programs''")
  case (Inl e)
  with assms have "r = Inl e" "w' = w" by (simp_all add: persist_def)
  then show ?thesis using grown_refl orphan_free_Nil by (intro exI[of _ "[]"]) simp
next
  case (Inr ps)
  with assms have "insert_programs env u ed ps
      \<lparr>programs = [], deadlines = [], people = [], links = [], rawResponse = content\<rparr> w = (r, w')"
    by (simp add: persist_def)
  from insert_programs_rows[OF this] show ?thesis unfolding entries_of_Inr[OF Inr] .
qed

lemma orphan_free_explained:
  assumes of: "orphan_free u ed ps (pre @ (t, row) # post)" and t: "t \<noteq> ''research_programs''"
  shows "\<exists>prow program payload m key flds c n.
           (''research_programs'', prow) \<in> set pre \<and> program \<in> set ps \<and>
           program_payload u program = Inr payload \<and> prow = stored m payload \<and>
           (key, t, flds) \<in> set child_kinds \<and> c \<in> set (entries_of ed key) \<and>
           matches program c \<and> row = stored n (child_payload flds prow c) \<and>
           get row ''program_id'' = get prow ''id''"
proof -
  from of have "if fst (t, row) = ''research_programs'' then program_row u ps (snd (t, row))
         else \<exists>prow. (''research_programs'', prow) \<in> set pre \<and> program_row u ps prow \<and>
                attached ed prow prow (t, row)"
    unfolding orphan_free_def by blast
  with t obtain prow where p: "(''research_programs'', prow) \<in> set pre"
    "program_row u ps prow" "attached ed prow prow (t, row)"
    by auto
  from p(2) obtain program payload m where pr: "program \<in> set ps"
    "program_payload u program = Inr payload" "prow = stored m payload"
    unfolding program_row_def by blast
  from p(3) obtain key tbl flds where k: "(key, tbl, flds) \<in> set child_kinds"
    "child_row tbl flds prow prow (entries_of ed key) (t, row)"
    unfolding attached_def by blast
  from k(2) obtain c n where c: "c \<in> set (entries_of ed key)" "matches prow c"
    "tbl = t" "row = stored n (child_payload flds prow c)"
    unfolding child_row_def by blast
  from c(2) have m: "matches program c" using matches_stored[OF pr(2)] pr(3) by simp
  have "get row ''program_id'' = get prow ''id''"
    unfolding c(4) pr(3) by (simp add: stored_def child_payload_def field_def)
  with p(1) pr k(1) c m show ?thesis by blast
qed

subsection \<open>Runs that do not throw\<close>

lemma readable_get: "readable v \<Longrightarrow> get v k = Inr (field v k)"
  by (cases v) (auto simp: readable_def field_def)

lemma readable_stored: "readable (stored n p)"
  by (simp add: readable_def stored_def)

lemma well_formed_entries:
  assumes "well_formed ed" "key \<in> {''programs'', ''deadlines'', ''people'', ''links''}"
  shows "entries ed key = Inr (entries_of ed key) \<and> list_all readable (entries_of ed key)"
  using assms by (auto simp: well_formed_def entries_of_def split: sum.splits)

lemma insert_children_total:
  assumes "readable program" "readable pd" "list_all readable cs"
  shows "\<exists>acc' w'. insert_children env tbl flds program pd cs acc w = (Inr acc', w')"
  using assms(3)
proof (induction cs arbitrary: acc w)
  case Nil
  show ?case by simp
next
  case (Cons child rest)
  hence c: "readable child" and r: "list_all readable rest" by simp_all
  note pt = readable_get[OF c, of "''program_title''"]
  note t = readable_get[OF assms(1), of "''title''"]
  note i = readable_get[OF assms(2), of "''id''"]
  show ?case
  proof (cases "strict_eq (field child ''program_title'') (field program ''title'')")
    case False
    with pt t Cons.IH[OF r] show ?thesis by simp
  next
    case True
    note step = insert_children_match[OF pt t True i, of env tbl flds rest acc w]
    obtain ro w1 where ir: "insert_row env tbl (child_payload flds pd child) w = (ro, w1)"
      by (cases "insert_row env tbl (child_payload flds pd child) w")
    show ?thesis
    proof (cases ro)
      case None
      with step ir Cons.IH[OF r, of acc w1] show ?thesis by simp
    next
      case (Some row)
      with step ir Cons.IH[OF r, of "acc @ [row]" w1] show ?thesis by simp
    qed
  qed
qed

lemma insert_associated_total:
  assumes "well_formed ed" "readable program" "readable pd"
    "key \<in> {''programs'', ''deadlines'', ''people'', ''links''}"
  shows "\<exists>acc' w'. insert_associated env key tbl flds ed program pd acc w = (Inr acc', w')"
  using well_formed_entries[OF assms(1,4)] insert_children_total[OF assms(2,3)]
  by (simp add: insert_associated_def)

lemma insert_all_children_total:
  assumes wf: "well_formed ed" and p: "readable program" and d: "readable pd"
  shows "\<exists>res' w'. insert_all_children env ed program pd res w = (Inr res', w')"
proof -
  obtain ds w1 where 1: "insert_associated env ''deadlines'' ''program_deadlines'' deadline_fields
      ed program pd (deadlines res) w = (Inr ds, w1)"
    using insert_associated_total[OF wf p d, of "''deadlines''" env "''program_deadlines''"
        deadline_fields "deadlines res" w] by auto
  obtain ps w2 where 2: "insert_associated env ''people'' ''program_people'' person_fields
      ed program pd (people res) w1 = (Inr ps, w2)"
    using insert_associated_total[OF wf p d, of "''people''" env "''program_people''"
        person_fields "people res" w1] by auto
  obtain ls w3 where 3: "insert_associated env ''links'' ''program_links'' link_fields
      ed program pd (links res) w2 = (Inr ls, w3)"
    using insert_associated_total[OF wf p d, of "''links''" env "''program_links''"
        link_fields "links res" w2] by auto
  from 1 2 3 show ?thesis by (simp add: insert_all_children_def)
qed

lemma readable_payload: "readable program \<Longrightarrow> program_payload u program = Inr (payload_of u program)"
  using readable_get[of program "''status''"]
    props_ok[of program "''status''" "field program ''status''"
      "[''title'', ''university'', ''description'', ''program_type'']"]
  by (simp add: payload_of_def program_payload_def)

lemma program_payload_readable: "program_payload u program = Inr payload \<Longrightarrow> readable program"
  by (cases program) (auto simp: program_payload_def readable_def)

lemma insert_programs_total:
  assumes wf: "well_formed ed" and ps: "list_all readable ps"
  shows "\<exists>res' w'. insert_programs env u ed ps res w = (Inr res', w')"
  using ps
proof (induction ps arbitrary: res w)
  case Nil
  show ?case by simp
next
  case (Cons program rest)
  hence p: "readable program" and r: "list_all readable rest" by simp_all
  note pp = readable_payload[OF p, of u]
  obtain ro w1 where ir: "insert_row env ''research_programs'' (payload_of u program) w = (ro, w1)"
    by (cases "insert_row env ''research_programs'' (payload_of u program) w")
  show ?case
  proof (cases ro)
    case None
    with pp ir Cons.IH[OF r, of res w1] show ?thesis by simp
  next
    case (Some pd)
    with ir have "pd = stored (next_id w) (payload_of u program)" using grown_accepted by blast
    hence "readable pd" using readable_stored by simp
    from insert_all_children_total[OF wf p this, of env "res\<lparr>programs := programs res @ [pd]\<rparr>" w1]
    obtain res2 w2 where "insert_all_children env ed program pd
        (res\<lparr>programs := programs res @ [pd]\<rparr>) w1 = (Inr res2, w2)" by blast
    with pp ir Some Cons.IH[OF r, of res2 w2] show ?thesis by simp
  qed
qed

lemma persist_total:
  assumes "well_formed ed"
  shows "\<exists>res w'. persist env u ed content w = (Inr res, w')"
  using well_formed_entries[OF assms, of "''programs''"] insert_programs_total[OF assms]
  by (simp add: persist_def)

subsection \<open>The outer loop, one program at a time\<close>

lemma insert_programs_append:
  "insert_programs env u ed (xs @ ys) res w =
     (case insert_programs env u ed xs res w of
        (Inl e, w1) \<Rightarrow> (Inl e, w1)
      | (Inr res1, w1) \<Rightarrow> insert_programs env u ed ys res1 w1)"
proof (induction xs arbitrary: res w)
  case Nil
  show ?case by simp
next
  case (Cons x xs)
  show ?case
    by (simp add: Cons.IH split: sum.splits prod.splits option.splits)
qed

lemma insert_programs_later:
  assumes "insert_programs env u ed pre res0 w0 = (Inr res, w)"
  shows "insert_programs env u ed (pre @ ps) res0 w0 = insert_programs env u ed ps res w"
  using assms by (simp add: insert_programs_append)

lemma insert_programs_rejected:
  assumes "program_payload u program = Inr payload"
    and "\<not> accepts env w ''research_programs'' payload"
  shows "insert_programs env u ed (program # rest) res w =
         insert_programs env u ed rest res
           (w\<lparr>inserts := inserts w @ [(''research_programs'', JObj payload, None)]\<rparr>)"
  using assms by (simp add: insert_row_rejected)

lemma insert_programs_accepted:
  assumes wf: "well_formed ed"
    and pp: "program_payload u program = Inr payload"
    and ok: "accepts env w ''research_programs'' payload"
  shows "\<exists>res2 w2 as.
     insert_programs env u ed (program # rest) res w = insert_programs env u ed rest res2 w2 \<and>
     inserts w2 = inserts w @
       (''research_programs'', JObj payload, Some (stored (next_id w) payload)) # as \<and>
     map request as = child_requests ed program (stored (next_id w) payload) \<and>
     db w2 = db w @ (''research_programs'', stored (next_id w) payload) # accepted_rows as \<and>
     programs res2 = programs res @ [stored (next_id w) payload] \<and>
     deadlines res2 = deadlines res @ rows_of ''program_deadlines'' (accepted_rows as) \<and>
     people res2 = people res @ rows_of ''program_people'' (accepted_rows as) \<and>
     links res2 = links res @ rows_of ''program_links'' (accepted_rows as)"
proof -
  let ?pd = "stored (next_id w) payload"
  let ?w1 = "w\<lparr>inserts := inserts w @ [(''research_programs'', JObj payload, Some ?pd)],
        db := db w @ [(''research_programs'', ?pd)], next_id := Suc (next_id w)\<rparr>"
  let ?res1 = "res\<lparr>programs := programs res @ [?pd]\<rparr>"
  note ir = insert_row_accepted[OF ok]
  from insert_all_children_total[OF wf program_payload_readable[OF pp] readable_stored, of env _ _ ?res1 ?w1]
  obtain res2 w2 where ac: "insert_all_children env ed program ?pd ?res1 ?w1 = (Inr res2, w2)"
    by blast
  from insert_all_children_summary[OF ac] obtain as where a: "grown ?w1 w2 as"
    and b: "\<forall>res'. Inr res2 = Inr res' \<longrightarrow>
           programs res' = programs ?res1 \<and> rawResponse res' = rawResponse ?res1 \<and>
           deadlines res' = deadlines ?res1 @ rows_of ''program_deadlines'' (accepted_rows as) \<and>
           people res' = people ?res1 @ rows_of ''program_people'' (accepted_rows as) \<and>
           links res' = links ?res1 @ rows_of ''program_links'' (accepted_rows as) \<and>
           map request as = child_requests ed program ?pd"
    by blast
  have 1: "insert_programs env u ed (program # rest) res w = insert_programs env u ed rest res2 w2"
    using pp ir ac by simp
  from a have 2: "inserts w2 = inserts w @ (''research_programs'', JObj payload, Some ?pd) # as"
    and 3: "db w2 = db w @ (''research_programs'', ?pd) # accepted_rows as"
    by (simp_all add: grown_def)
  from b have 4: "map request as = child_requests ed program ?pd"
    "programs res2 = programs res @ [?pd]"
    "deadlines res2 = deadlines res @ rows_of ''program_deadlines'' (accepted_rows as)"
    "people res2 = people res @ rows_of ''program_people'' (accepted_rows as)"
    "links res2 = links res @ rows_of ''program_links'' (accepted_rows as)"
    by simp_all
  from 1 2 3 4 show ?thesis by blast
qed

subsection \<open>Before the persist step\<close>

lemma call_completion_world:
  "call_completion env key message w = (r, w1) \<Longrightarrow>
   w1 = w\<lparr>completions := completions w @ [(key, message)]\<rparr>"
  by (auto simp: call_completion_def Let_def split: upstream.splits option.splits sum.splits)

lemma api_key_absent:
  "OPENAI_API_KEY env = None \<or> OPENAI_API_KEY env = Some [] \<Longrightarrow>
   api_key env = Inl (Error ''OpenAI API key not configured'')"
  by (auto simp: api_key_def)

lemma parse_request_lacking:
  assumes "\<forall>b. json req = Some b \<longrightarrow> \<not> truthy (field b ''message'') \<or> \<not> truthy (field b ''userId'')"
  shows "\<exists>e. parse_request req = Inl e \<and>
           (\<forall>b. json req = Some b \<and> b \<noteq> JNull \<and> b \<noteq> JUndefined \<longrightarrow>
              e = Error ''Message and userId are required'')"
proof (cases "json req")
  case None
  then show ?thesis by (simp add: parse_request_def)
next
  case (Some b)
  show ?thesis
  proof (cases "b = JNull \<or> b = JUndefined")
    case True
    with Some show ?thesis by (auto simp: parse_request_def)
  next
    case False
    then obtain m u where g: "get b ''message'' = Inr m" "get b ''userId'' = Inr u"
      by (cases b) auto
    with assms Some have "\<not> truthy m \<or> \<not> truthy u" by (auto simp: field_def)
    with Some g show ?thesis by (auto simp: parse_request_def)
  qed
qed

subsection \<open>The handler as a whole\<close>


lemma pushed_empty:
  assumes "pushed \<lparr>programs = [], deadlines = [], people = [], links = [], rawResponse = c\<rparr> res rows"
  shows "programs res = rows_of ''research_programs'' rows"
    "deadlines res = rows_of ''program_deadlines'' rows"
    "people res = rows_of ''program_people'' rows"
    "links res = rows_of ''program_links'' rows"
    "rawResponse res = c"
  using assms by (simp_all add: pushed_def)



subsection \<open>The insert log of a run without exception\<close>

lemma traced_Nil: "traced env u ed [] []"
  by (simp add: traced_def rows_of_def)

lemma payload_of_Inr: "program_payload u p = Inr payload \<Longrightarrow> payload_of u p = payload"
  by (simp add: payload_of_def)

lemma traced_rejected:
  assumes t: "traced env u ed rest as" and pp: "program_payload u program = Inr payload"
    and rej: "\<not> accepts env w ''research_programs'' payload"
  shows "traced env u ed (program # rest) ((''research_programs'', JObj payload, None) # as)"
proof -
  let ?a = "(''research_programs'', JObj payload, None)"
  have 1: "rows_of ''research_programs'' (accepted_rows (?a # as)) =
           rows_of ''research_programs'' (accepted_rows as)" by simp
  have 2: "rows_of ''research_programs'' (map request (?a # as)) =
           JObj payload # rows_of ''research_programs'' (map request as)"
    by (simp add: rows_of_def request_def)
  from rej have 3: "\<not> (\<forall>v p. accepts env v ''research_programs'' p)" by blast
  from t show ?thesis
    unfolding traced_def 1 2 using 3 payload_of_Inr[OF pp] by auto
qed

lemma rows_of_requests_none:
  "\<forall>a\<in>set cs. fst a \<noteq> tbl \<Longrightarrow> rows_of tbl (map request cs) = []"
  by (auto simp: rows_of_def request_def filter_empty_conv)

lemma traced_accepted:
  assumes t: "traced env u ed rest as" and pp: "program_payload u program = Inr payload"
    and cs: "map request cs = child_requests ed program (stored n payload)"
    and nt: "\<forall>a\<in>set cs. fst a \<noteq> ''research_programs''"
  shows "traced env u ed (program # rest)
           ((''research_programs'', JObj payload, Some (stored n payload)) # cs @ as)"
proof -
  let ?pd = "stored n payload"
  let ?a = "(''research_programs'', JObj payload, Some ?pd)"
  have nr: "rows_of ''research_programs'' (accepted_rows cs) = []"
    using rows_of_none[OF accepted_rows_not_table[OF nt]] .
  have 1: "rows_of ''research_programs'' (accepted_rows (?a # cs @ as)) =
           ?pd # rows_of ''research_programs'' (accepted_rows as)"
    using nr by (simp add: accepted_rows_append rows_of_append) (simp add: rows_of_def)
  have 2: "rows_of ''research_programs'' (map request (?a # cs @ as)) =
           JObj payload # rows_of ''research_programs'' (map request as)"
    using rows_of_requests_none[OF nt] by (simp add: rows_of_append) (simp add: rows_of_def request_def)
  have own: "set (child_requests ed ?pd ?pd) \<subseteq> set (map request (?a # cs @ as))"
    unfolding child_requests_stored[OF pp] cs[symmetric] by auto
  have others: "set (child_requests ed prow prow) \<subseteq> set (map request (?a # cs @ as))"
    if "prow \<in> set (rows_of ''research_programs'' (accepted_rows as))" for prow
    using t that unfolding traced_def by auto
  have A: "\<forall>prow\<in>set (rows_of ''research_programs'' (accepted_rows (?a # cs @ as))).
        set (child_requests ed prow prow) \<subseteq> set (map request (?a # cs @ as))"
    unfolding 1 using own others by simp
  have B: "rows_of ''research_programs'' (map request (?a # cs @ as)) =
        map (\<lambda>p. JObj (payload_of u p)) (program # rest)"
    unfolding 2 using t payload_of_Inr[OF pp] by (simp add: traced_def)
  have C: "(\<forall>v p. accepts env v ''research_programs'' p) \<longrightarrow>
        list_all2 (\<lambda>p row. \<exists>n. row = stored n (payload_of u p)) (program # rest)
          (rows_of ''research_programs'' (accepted_rows (?a # cs @ as)))"
    unfolding 1 using t payload_of_Inr[OF pp] by (auto simp: traced_def)
  from A B C show ?thesis unfolding traced_def by blast
qed

lemma insert_programs_trace:
  "insert_programs env u ed ps res w = (Inr res', w') \<Longrightarrow>
   \<exists>as. grown w w' as \<and> traced env u ed ps as"
proof (induction ps arbitrary: res w)
  case Nil
  hence "w' = w" by simp
  then show ?case using grown_refl traced_Nil by blast
next
  case (Cons program rest)
  from Cons.prems show ?case
  proof (cases rule: insert_programs_step)
    case (throws e)
    then show ?thesis by simp
  next
    case (rejected payload w1)
    from Cons.IH[OF rejected(3)] obtain as where n: "grown w1 w' as" "traced env u ed rest as"
      by blast
    have "\<not> accepts env w ''research_programs'' payload"
      using rejected(2) by (auto simp: insert_row_def Let_def split: if_splits)
    from traced_rejected[OF n(2) rejected(1) this]
      grown_trans[OF grown_rejected[OF rejected(2)] n(1)]
    show ?thesis by (intro exI[of _ "(''research_programs'', JObj payload, None) # as"]) simp
  next
    case (child_throws payload pd w1 e)
    then show ?thesis by simp
  next
    case (accepted payload pd w1 res2 w2)
    from grown_accepted[OF accepted(2)]
    have pd: "pd = stored (next_id w) payload"
      and g1: "grown w w1 [(''research_programs'', JObj payload, Some pd)]" by blast+
    from insert_all_children_summary[OF accepted(3)] obtain cs where c: "grown w1 w2 cs"
      "\<forall>a\<in>set cs. fst a \<noteq> ''research_programs''"
      and c4: "\<forall>res'. Inr res2 = Inr res' \<longrightarrow>
           programs res' = programs (res\<lparr>programs := programs res @ [pd]\<rparr>) \<and>
           rawResponse res' = rawResponse (res\<lparr>programs := programs res @ [pd]\<rparr>) \<and>
           deadlines res' = deadlines (res\<lparr>programs := programs res @ [pd]\<rparr>) @ rows_of ''program_deadlines'' (accepted_rows cs) \<and>
           people res' = people (res\<lparr>programs := programs res @ [pd]\<rparr>) @ rows_of ''program_people'' (accepted_rows cs) \<and>
           links res' = links (res\<lparr>programs := programs res @ [pd]\<rparr>) @ rows_of ''program_links'' (accepted_rows cs) \<and>
           map request cs = child_requests ed program pd"
      by blast
    from c4 have rq: "map request cs = child_requests ed program (stored (next_id w) payload)"
      unfolding pd by simp
    from Cons.IH[OF accepted(4)] obtain as where n: "grown w2 w' as" "traced env u ed rest as"
      by blast
    have "grown w w' ([(''research_programs'', JObj payload, Some pd)] @ cs @ as)"
      using grown_trans[OF g1 grown_trans[OF c(1) n(1)]] .
    with traced_accepted[OF n(2) accepted(1) rq c(2)] show ?thesis
      unfolding pd by (intro exI[of _ "(''research_programs'', JObj payload, Some (stored (next_id w) payload)) # cs @ as"]) simp
  qed
qed

lemma persist_trace:
  assumes "persist env u ed content w = (Inr res, w')"
  shows "\<exists>as. grown w w' as \<and> traced env u ed (entries_of ed ''programs'') as \<and>
           pushed \<lparr>programs = [], deadlines = [], people = [], links = [], rawResponse = content\<rparr>
             res (accepted_rows as)"
proof (cases "entries ed ''programs''")
  case (Inl e)
  with assms show ?thesis by (simp add: persist_def)
next
  case (Inr ps)
  let ?r0 = "\<lparr>programs = [], deadlines = [], people = [], links = [], rawResponse = content\<rparr>"
  from Inr assms have run: "insert_programs env u ed ps ?r0 w = (Inr res, w')"
    by (simp add: persist_def)
  from insert_programs_trace[OF run] obtain as where a: "grown w w' as" "traced env u ed ps as"
    by blast
  from insert_programs_rows[OF run] obtain bs where b: "grown w w' bs"
    "\<forall>res'. Inr res = Inr res' \<longrightarrow> pushed ?r0 res' (accepted_rows bs)" by blast
  from a(1) b(1) have "bs = as" by (simp add: grown_def)
  with a b(2) show ?thesis unfolding entries_of_Inr[OF Inr] by blast
qed

lemma distinct_new_ids:
  assumes "grown w w' as"
  shows "distinct (map (\<lambda>row. field row ''id'') (rows_of tbl (accepted_rows as)))"
proof -
  have "inj_on (\<lambda>n. JNum (int n)) A" for A by (simp add: inj_on_def)
  hence "distinct (map (\<lambda>n. JNum (int n)) [next_id w ..< next_id w + length (accepted_rows as)])"
    by (simp add: distinct_map)
  with assms have "distinct (map (\<lambda>x. field (snd x) ''id'') (accepted_rows as))"
    by (simp add: grown_def)
  hence "distinct (map (\<lambda>x. field (snd x) ''id'') (filter (\<lambda>x. fst x = tbl) (accepted_rows as)))"
    by (rule distinct_map_filter)
  then show ?thesis by (simp add: rows_of_def comp_def)
qed

lemma db_rows_of:
  "grown w w' as \<Longrightarrow> rows_of tbl (db w') = rows_of tbl (db w) @ rows_of tbl (accepted_rows as)"
  by (simp add: grown_def rows_of_append)

subsection \<open>An inner loop with exactly one matching entry\<close>

lemma insert_children_no_match:
  assumes "readable program" "list_all readable cs" "filter (matches program) cs = []"
  shows "insert_children env tbl flds program pd cs acc w = (Inr acc, w)"
  using assms(2,3)
proof (induction cs)
  case Nil
  show ?case by simp
next
  case (Cons child rest)
  hence c: "readable child" and r: "list_all readable rest"
    and nm: "\<not> matches program child" and fr: "filter (matches program) rest = []"
    by (simp_all split: if_splits)
  note pt = readable_get[OF c, of "''program_title''"]
  note t = readable_get[OF assms(1), of "''title''"]
  from nm pt t have "\<not> strict_eq (field child ''program_title'') (field program ''title'')"
    by (simp add: matches_def)
  with pt t Cons.IH[OF r fr] show ?case by simp
qed

lemma insert_children_single:
  assumes p: "readable program" and d: "readable pd"
    and cs: "list_all readable cs" and one: "filter (matches program) cs = [child]"
    and ok: "accepts env w tbl (child_payload flds pd child)"
  shows "insert_children env tbl flds program pd cs acc w =
           (Inr (acc @ [stored (next_id w) (child_payload flds pd child)]),
            w\<lparr>inserts := inserts w @ [(tbl, JObj (child_payload flds pd child),
                                         Some (stored (next_id w) (child_payload flds pd child)))],
              db := db w @ [(tbl, stored (next_id w) (child_payload flds pd child))],
              next_id := Suc (next_id w)\<rparr>)"
  using cs one
proof (induction cs)
  case Nil
  then show ?case by simp
next
  case (Cons c rest)
  hence rc: "readable c" and r: "list_all readable rest" by simp_all
  note pt = readable_get[OF rc, of "''program_title''"]
  note t = readable_get[OF p, of "''title''"]
  note i = readable_get[OF d, of "''id''"]
  show ?case
  proof (cases "matches program c")
    case True
    with Cons.prems(2) have eq: "c = child" and fr: "filter (matches program) rest = []" by simp_all
    from True pt t have se: "strict_eq (field c ''program_title'') (field program ''title'')"
      by (simp add: matches_def)
    note step = insert_children_match[OF pt t se i, of env tbl flds rest acc w]
    show ?thesis
      unfolding step unfolding eq insert_row_accepted[OF ok]
      by (simp add: insert_children_no_match[OF p r fr])
  next
    case False
    with Cons.prems(2) have fr: "filter (matches program) rest = [child]" by simp
    from False pt t have "\<not> strict_eq (field c ''program_title'') (field program ''title'')"
      by (simp add: matches_def)
    with pt t Cons.IH[OF r fr] show ?thesis by simp
  qed
qed

subsection \<open>A run on an example\<close>

lemma ex_persist:
  "persist ex_env (JStr ''u1'') ex_graph (JStr ''raw'') ex_world =
     (Inr \<lparr>programs = [ex_program_row], deadlines = [ex_deadline_row], people = [], links = [],
           rawResponse = JStr ''raw''\<rparr>,
      \<lparr>db = [(''research_programs'', ex_program_row), (''program_deadlines'', ex_deadline_row)],
       next_id = 2,
       inserts =
         [(''research_programs'',
           JObj [(''user_id'', JStr ''u1''), (''title'', JStr ''X''), (''university'', JStr ''MIT''),
                 (''description'', JUndefined), (''program_type'', JUndefined),
                 (''status'', JStr ''active'')],
           Some ex_program_row),
          (''program_deadlines'',
           JObj [(''program_id'', JNum 0), (''title'', JStr ''due''), (''deadline_date'', JUndefined),
                 (''deadline_type'', JUndefined), (''description'', JUndefined)],
           Some ex_deadline_row)],
       completions = []\<rparr>)"
  by (simp add: Let_def persist_def entries_def or_else_def ex_graph_def ex_env_def ex_world_def
      program_payload_def insert_row_def stored_def insert_all_children_def insert_associated_def
      deadline_fields_def person_fields_def link_fields_def ex_program_row_def ex_deadline_row_def)

lemma ex_program_payload: "program_payload (JStr ''u1'') ex_program = Inr ex_payload"
  by (simp add: program_payload_def ex_program_def ex_payload_def or_else_def)

lemma ex_start: "insert_programs env u ed [] ex_results ex_world = (Inr ex_results, ex_world)"
  by simp

lemma ex_family_well_formed: "well_formed ex_family_graph"
  by (simp add: well_formed_def entries_def or_else_def ex_family_graph_def readable_def)

lemma ex_family_requests:
  "child_requests ex_family_graph ex_program (stored 0 ex_payload) =
     [(''program_deadlines'',
       JObj [(''program_id'', JNum 0), (''title'', JStr ''due''), (''deadline_date'', JUndefined),
             (''deadline_type'', JUndefined), (''description'', JUndefined)]),
      (''program_deadlines'',
       JObj [(''program_id'', JNum 0), (''title'', JStr ''late''), (''deadline_date'', JUndefined),
             (''deadline_type'', JUndefined), (''description'', JUndefined)]),
      (''program_people'',
       JObj [(''program_id'', JNum 0), (''name'', JStr ''Ada''), (''description'', JUndefined),
             (''linkedin_url'', JUndefined), (''role'', JUndefined)])]"
  by (simp add: child_requests_def child_kinds_def entries_of_def entries_def or_else_def
      ex_family_graph_def ex_program_def matches_def child_payload_def field_def stored_def
      deadline_fields_def person_fields_def link_fields_def)

lemma ex_graph_well_formed: "well_formed ex_graph"
  by (simp add: well_formed_def entries_def or_else_def ex_graph_def readable_def)


lemma ex_graph_programs: "entries_of ex_graph ''programs'' = [ex_program]"
  by (simp add: entries_of_def entries_def or_else_def ex_graph_def ex_program_def)

lemma ex_payload_of: "payload_of (JStr ''u1'') ex_program = ex_payload"
  by (simp add: payload_of_def ex_program_payload)

subsection \<open>The insert log replayed on the store\<close>











subsection \<open>The requests on the child tables\<close>







subsection \<open>The completion request and the size of the results\<close>








section \<open>The claims\<close>

text \<open>
  C1 (no orphans). Whatever the extracted data and whatever the store answers, and
  also when the run ends with an exception, every row that one run of the persist
  step writes outside \<^verbatim>\<open>research_programs\<close> is the row of an entry \<open>c\<close> of
  the matching array whose \<^verbatim>\<open>program_title\<close> is strictly equal to the title of
  a program of the \<^verbatim>\<open>programs\<close> array; the row \<open>prow\<close> of that program was
  written earlier in the same run, and the \<^verbatim>\<open>program_id\<close> of the child row is
  the id of \<open>prow\<close>.
\<close>

theorem no_orphans:
  assumes "persist env userId extractedData content w = (r, w')"
  shows "\<exists>new. db w' = db w @ new \<and>
     (\<forall>pre t row post. new = pre @ (t, row) # post \<and> t \<noteq> ''research_programs'' \<longrightarrow>
        (\<exists>prow program payload m key flds c n.
           (''research_programs'', prow) \<in> set pre \<and>
           program \<in> set (entries_of extractedData ''programs'') \<and>
           program_payload userId program = Inr payload \<and> prow = stored m payload \<and>
           (key, t, flds) \<in> set child_kinds \<and> c \<in> set (entries_of extractedData key) \<and>
           matches program c \<and> row = stored n (child_payload flds prow c) \<and>
           get row ''program_id'' = get prow ''id''))"
proof -
  from persist_rows[OF assms] obtain as where a: "grown w w' as"
    "orphan_free userId extractedData (entries_of extractedData ''programs'') (accepted_rows as)"
    by blast
  from a(1) have "db w' = db w @ accepted_rows as" by (simp add: grown_def)
  moreover have "\<exists>prow program payload m key flds c n.
           (''research_programs'', prow) \<in> set pre \<and>
           program \<in> set (entries_of extractedData ''programs'') \<and>
           program_payload userId program = Inr payload \<and> prow = stored m payload \<and>
           (key, t, flds) \<in> set child_kinds \<and> c \<in> set (entries_of extractedData key) \<and>
           matches program c \<and> row = stored n (child_payload flds prow c) \<and>
           get row ''program_id'' = get prow ''id''"
    if "accepted_rows as = pre @ (t, row) # post \<and> t \<noteq> ''research_programs''" for pre t row post
  proof -
    from that a(2)
    have "orphan_free userId extractedData (entries_of extractedData ''programs'') (pre @ (t, row) # post)"
      by simp
    moreover from that have "t \<noteq> ''research_programs''" by simp
    ultimately show ?thesis by (rule orphan_free_explained)
  qed
  ultimately show ?thesis by blast
qed

theorem no_orphans_witness:
  "db (snd (persist ex_env (JStr ''u1'') ex_graph (JStr ''raw'') ex_world)) =
     db ex_world @ [(''research_programs'', ex_program_row), (''program_deadlines'', ex_deadline_row)] \<and>
   get ex_deadline_row ''program_id'' = get ex_program_row ''id''"
proof -
  obtain r w' where run: "persist ex_env (JStr ''u1'') ex_graph (JStr ''raw'') ex_world = (r, w')"
    by (cases "persist ex_env (JStr ''u1'') ex_graph (JStr ''raw'') ex_world")
  with ex_persist have dbw:
    "db w' = db ex_world @ [(''research_programs'', ex_program_row), (''program_deadlines'', ex_deadline_row)]"
    by (auto simp: ex_world_def)
  from no_orphans[OF run] obtain new where n: "db w' = db ex_world @ new"
    and a: "\<forall>pre t row post. new = pre @ (t, row) # post \<and> t \<noteq> ''research_programs'' \<longrightarrow>
        (\<exists>prow program payload m key flds c n.
           (''research_programs'', prow) \<in> set pre \<and>
           program \<in> set (entries_of ex_graph ''programs'') \<and>
           program_payload (JStr ''u1'') program = Inr payload \<and> prow = stored m payload \<and>
           (key, t, flds) \<in> set child_kinds \<and> c \<in> set (entries_of ex_graph key) \<and>
           matches program c \<and> row = stored n (child_payload flds prow c) \<and>
           get row ''program_id'' = get prow ''id'')"
    by blast
  from n dbw have "new = [(''research_programs'', ex_program_row)] @
      (''program_deadlines'', ex_deadline_row) # []" by simp
  with a have "\<exists>prow. (''research_programs'', prow) \<in> set [(''research_programs'', ex_program_row)] \<and>
      get ex_deadline_row ''program_id'' = get prow ''id''"
    by blast
  hence "get ex_deadline_row ''program_id'' = get ex_program_row ''id''" by simp
  with dbw run show ?thesis by auto
qed

text \<open>
  C2 (a failed program insert). Take any program of the array, reached by the
  outer loop without an exception, whose insert the store rejects. Its iteration
  asks the store for nothing else: the only new entry of the insert log is the
  rejected insert itself, no row is written, the results are untouched, and the
  loop goes on with the rest of the array. This holds for any extracted data, so
  however many entries carry the title of that program.
\<close>

theorem failed_program_has_no_children:
  assumes "insert_programs env userId extractedData pre res0 w0 = (Inr res, w)"
    and "program_payload userId program = Inr payload"
    and "\<not> accepts env w ''research_programs'' payload"
  shows "insert_programs env userId extractedData (pre @ program # rest) res0 w0 =
         insert_programs env userId extractedData rest res
           (w\<lparr>inserts := inserts w @ [(''research_programs'', JObj payload, None)]\<rparr>)"
  using insert_programs_later[OF assms(1)] insert_programs_rejected[OF assms(2,3)] by simp

theorem failed_program_has_no_children_witness:
  "insert_programs ex_no_program_env (JStr ''u1'') ex_family_graph ([] @ ex_program # [])
     ex_results ex_world =
     (Inr ex_results,
      ex_world\<lparr>inserts := inserts ex_world @ [(''research_programs'', JObj ex_payload, None)]\<rparr>)"
proof -
  have "\<not> accepts ex_no_program_env ex_world ''research_programs'' ex_payload"
    by (simp add: ex_no_program_env_def)
  from failed_program_has_no_children[OF ex_start ex_program_payload this, of ex_family_graph "[]"]
  show ?thesis by simp
qed

text \<open>
  C3 (a failed child insert). Take any program of the array, reached by the outer
  loop without an exception, whose insert the store accepts, in well-formed
  extracted data. Whatever the store answers to the inserts of its children, the
  iteration asks for one insert for every matching entry of the three arrays, in
  order (\<open>child_requests\<close> does not depend on the store); the row of the program is
  pushed on the results; the rows pushed on the other three sequences, and written
  to the store, are exactly those of the inserts the store accepted; and the loop
  goes on with the rest of the array.
\<close>

theorem child_failure_isolation:
  assumes "insert_programs env userId extractedData pre res0 w0 = (Inr res, w)"
    and "well_formed extractedData"
    and "program_payload userId program = Inr payload"
    and "accepts env w ''research_programs'' payload"
  shows "\<exists>res2 w2 as.
     insert_programs env userId extractedData (pre @ program # rest) res0 w0 =
       insert_programs env userId extractedData rest res2 w2 \<and>
     inserts w2 = inserts w @
       (''research_programs'', JObj payload, Some (stored (next_id w) payload)) # as \<and>
     map request as = child_requests extractedData program (stored (next_id w) payload) \<and>
     db w2 = db w @ (''research_programs'', stored (next_id w) payload) # accepted_rows as \<and>
     programs res2 = programs res @ [stored (next_id w) payload] \<and>
     deadlines res2 = deadlines res @ rows_of ''program_deadlines'' (accepted_rows as) \<and>
     people res2 = people res @ rows_of ''program_people'' (accepted_rows as) \<and>
     links res2 = links res @ rows_of ''program_links'' (accepted_rows as)"
  unfolding insert_programs_later[OF assms(1)]
  by (rule insert_programs_accepted[OF assms(2,3,4)])

theorem child_failure_isolation_witness:
  "\<exists>res2 w2 as.
     insert_programs ex_picky_env (JStr ''u1'') ex_family_graph ([] @ ex_program # [])
       ex_results ex_world = (Inr res2, w2) \<and>
     inserts w2 = (''research_programs'', JObj ex_payload, Some (stored 0 ex_payload)) # as \<and>
     map request as =
       [(''program_deadlines'',
         JObj [(''program_id'', JNum 0), (''title'', JStr ''due''), (''deadline_date'', JUndefined),
               (''deadline_type'', JUndefined), (''description'', JUndefined)]),
        (''program_deadlines'',
         JObj [(''program_id'', JNum 0), (''title'', JStr ''late''), (''deadline_date'', JUndefined),
               (''deadline_type'', JUndefined), (''description'', JUndefined)]),
        (''program_people'',
         JObj [(''program_id'', JNum 0), (''name'', JStr ''Ada''), (''description'', JUndefined),
               (''linkedin_url'', JUndefined), (''role'', JUndefined)])] \<and>
     programs res2 = [stored 0 ex_payload] \<and>
     deadlines res2 = rows_of ''program_deadlines'' (accepted_rows as)"
proof -
  have ok: "accepts ex_picky_env ex_world ''research_programs'' ex_payload"
    by (simp add: ex_picky_env_def ex_payload_def)
  from child_failure_isolation[OF ex_start ex_family_well_formed ex_program_payload ok, of "[]"]
  obtain res2 w2 as where f:
    "insert_programs ex_picky_env (JStr ''u1'') ex_family_graph ([] @ ex_program # [])
       ex_results ex_world = insert_programs ex_picky_env (JStr ''u1'') ex_family_graph [] res2 w2"
    "inserts w2 = inserts ex_world @
       (''research_programs'', JObj ex_payload, Some (stored (next_id ex_world) ex_payload)) # as"
    "map request as = child_requests ex_family_graph ex_program (stored (next_id ex_world) ex_payload)"
    "programs res2 = programs ex_results @ [stored (next_id ex_world) ex_payload]"
    "deadlines res2 = deadlines ex_results @ rows_of ''program_deadlines'' (accepted_rows as)"
    by blast
  have n: "next_id ex_world = 0" "inserts ex_world = []" by (simp_all add: ex_world_def)
  have r: "programs ex_results = []" "deadlines ex_results = []" by (simp_all add: ex_results_def)
  from f(1) have 1: "insert_programs ex_picky_env (JStr ''u1'') ex_family_graph ([] @ ex_program # [])
       ex_results ex_world = (Inr res2, w2)" by simp
  from f(2) have 2: "inserts w2 = (''research_programs'', JObj ex_payload, Some (stored 0 ex_payload)) # as"
    by (simp add: n)
  note 3 = f(3)[unfolded n ex_family_requests]
  from f(4) have 4: "programs res2 = [stored 0 ex_payload]" by (simp add: n r)
  from f(5) have 5: "deadlines res2 = rows_of ''program_deadlines'' (accepted_rows as)" by (simp add: r)
  show ?thesis
    by (rule exI[of _ res2], rule exI[of _ w2], rule exI[of _ as], intro conjI) (rule 1 2 3 4 5)+
qed




text \<open>
  C5 (round trip). Let the \<^verbatim>\<open>programs\<close> array of well-formed extracted data hold
  exactly one program, let exactly one entry of the \<^verbatim>\<open>deadlines\<close> array have a
  \<^verbatim>\<open>program_title\<close> strictly equal to the title of that program, and let the
  store accept the insert of the program and then the insert of that deadline.
  Then the persist step ends without an exception; it pushes exactly one program
  row and exactly one deadline row, which are the only rows it adds to the two
  tables; and the \<^verbatim>\<open>program_id\<close> of the deadline row is the id the store gave
  to the program row.
\<close>

theorem round_trip:
  assumes "entries extractedData ''programs'' = Inr [program]"
    and "well_formed extractedData"
    and "filter (matches program) (entries_of extractedData ''deadlines'') = [deadline]"
    and "accepts env w ''research_programs'' (payload_of userId program)"
    and "accepts env (snd (insert_row env ''research_programs'' (payload_of userId program) w))
           ''program_deadlines''
           (child_payload deadline_fields (stored (next_id w) (payload_of userId program)) deadline)"
  shows "\<exists>res w' prow drow.
      persist env userId extractedData content w = (Inr res, w') \<and>
      prow = stored (next_id w) (payload_of userId program) \<and>
      drow = stored (Suc (next_id w)) (child_payload deadline_fields prow deadline) \<and>
      programs res = [prow] \<and> deadlines res = [drow] \<and>
      rows_of ''research_programs'' (db w') = rows_of ''research_programs'' (db w) @ [prow] \<and>
      rows_of ''program_deadlines'' (db w') = rows_of ''program_deadlines'' (db w) @ [drow] \<and>
      get drow ''program_id'' = get prow ''id''"
proof -
  let ?payload = "payload_of userId program"
  let ?prow = "stored (next_id w) ?payload"
  let ?dp = "child_payload deadline_fields ?prow deadline"
  let ?drow = "stored (Suc (next_id w)) ?dp"
  let ?r0 = "\<lparr>programs = [], deadlines = [], people = [], links = [], rawResponse = content\<rparr>"
  let ?r1 = "?r0\<lparr>programs := programs ?r0 @ [?prow]\<rparr>"
  let ?w1 = "w\<lparr>inserts := inserts w @ [(''research_programs'', JObj ?payload, Some ?prow)],
        db := db w @ [(''research_programs'', ?prow)], next_id := Suc (next_id w)\<rparr>"
  let ?w2 = "?w1\<lparr>inserts := inserts ?w1 @ [(''program_deadlines'', JObj ?dp, Some ?drow)],
        db := db ?w1 @ [(''program_deadlines'', ?drow)], next_id := Suc (next_id ?w1)\<rparr>"
  note wf = assms(2)
  have rp: "readable program"
    using well_formed_entries[OF wf, of "''programs''"] assms(1) by (simp add: entries_of_def)
  have rs: "readable ?prow" by (rule readable_stored)
  note pp = readable_payload[OF rp, of userId]
  note ir = insert_row_accepted[OF assms(4)]
  have okd: "accepts env ?w1 ''program_deadlines'' ?dp" using assms(5) unfolding ir by simp
  have ds: "entries extractedData ''deadlines'' = Inr (entries_of extractedData ''deadlines'')"
    "list_all readable (entries_of extractedData ''deadlines'')"
    using well_formed_entries[OF wf, of "''deadlines''"] by simp_all
  have d1: "insert_associated env ''deadlines'' ''program_deadlines'' deadline_fields
      extractedData program ?prow (deadlines ?r1) ?w1 = (Inr [?drow], ?w2)"
    unfolding insert_associated_def ds(1)
    using insert_children_single[OF rp rs ds(2) assms(3) okd, of "[]"]
    by simp
  obtain ps w3 where d2: "insert_associated env ''people'' ''program_people'' person_fields
      extractedData program ?prow (people ?r1) ?w2 = (Inr ps, w3)"
    using insert_associated_total[OF wf rp rs, of "''people''" env "''program_people''"
        person_fields "people ?r1" ?w2] by auto
  obtain ls w4 where d3: "insert_associated env ''links'' ''program_links'' link_fields
      extractedData program ?prow (links ?r1) w3 = (Inr ls, w4)"
    using insert_associated_total[OF wf rp rs, of "''links''" env "''program_links''"
        link_fields "links ?r1" w3] by auto
  from insert_associated_summary[OF d2] obtain as2 where a2: "grown ?w2 w3 as2"
    "\<forall>a\<in>set as2. fst a = ''program_people''" by blast
  from insert_associated_summary[OF d3] obtain as3 where a3: "grown w3 w4 as3"
    "\<forall>a\<in>set as3. fst a = ''program_links''" by blast
  have ac: "insert_all_children env extractedData program ?prow ?r1 ?w1 =
      (Inr (?r1\<lparr>deadlines := [?drow], people := ps, links := ls\<rparr>), w4)"
    using d1 d2 d3 by (simp add: insert_all_children_def)
  have run: "persist env userId extractedData content w =
      (Inr (?r1\<lparr>deadlines := [?drow], people := ps, links := ls\<rparr>), w4)"
    unfolding persist_def assms(1) using pp ir ac by simp
  from grown_trans[OF a2(1) a3(1)] have g: "grown ?w2 w4 (as2 @ as3)" .
  have n2: "rows_of ''research_programs'' (accepted_rows (as2 @ as3)) = []"
    using rows_of_other[OF accepted_rows_fst[OF a2(2)], of "''research_programs''"]
      rows_of_other[OF accepted_rows_fst[OF a3(2)], of "''research_programs''"]
    by (simp add: accepted_rows_append rows_of_append)
  have n3: "rows_of ''program_deadlines'' (accepted_rows (as2 @ as3)) = []"
    using rows_of_other[OF accepted_rows_fst[OF a2(2)], of "''program_deadlines''"]
      rows_of_other[OF accepted_rows_fst[OF a3(2)], of "''program_deadlines''"]
    by (simp add: accepted_rows_append rows_of_append)
  have r1: "rows_of ''research_programs'' (db w4) = rows_of ''research_programs'' (db w) @ [?prow]"
    unfolding db_rows_of[OF g] n2 by (simp add: rows_of_def)
  have r2: "rows_of ''program_deadlines'' (db w4) = rows_of ''program_deadlines'' (db w) @ [?drow]"
    unfolding db_rows_of[OF g] n3 by (simp add: rows_of_def)
  have fk: "get ?drow ''program_id'' = get ?prow ''id''"
    by (simp add: stored_def child_payload_def field_def)
  have p: "programs (?r1\<lparr>deadlines := [?drow], people := ps, links := ls\<rparr>) = [?prow]"
    and dl: "deadlines (?r1\<lparr>deadlines := [?drow], people := ps, links := ls\<rparr>) = [?drow]"
    by simp_all
  show ?thesis
    by (rule exI[of _ "?r1\<lparr>deadlines := [?drow], people := ps, links := ls\<rparr>"],
        rule exI[of _ w4], rule exI[of _ ?prow], rule exI[of _ ?drow], intro conjI)
       (rule run refl p dl r1 r2 fk)+
qed

theorem round_trip_witness:
  "\<exists>res w'.
     persist ex_env (JStr ''u1'') ex_graph (JStr ''one'') ex_world = (Inr res, w') \<and>
     programs res = [stored 0 ex_payload] \<and>
     deadlines res = [stored (Suc 0) ex_deadline_payload] \<and>
     rows_of ''program_deadlines'' (db w') = [stored (Suc 0) ex_deadline_payload] \<and>
     get (stored (Suc 0) ex_deadline_payload) ''program_id'' = get (stored 0 ex_payload) ''id''"
proof -
  have 1: "entries ex_graph ''programs'' = Inr [ex_program]"
    by (simp add: entries_def or_else_def ex_graph_def ex_program_def)
  have 3: "filter (matches ex_program) (entries_of ex_graph ''deadlines'') = [ex_deadline]"
    by (simp add: entries_of_def entries_def or_else_def ex_graph_def ex_program_def
        ex_deadline_def matches_def)
  have 4: "accepts ex_env ex_world ''research_programs'' (payload_of (JStr ''u1'') ex_program)"
    by (simp add: ex_env_def)
  have 5: "accepts ex_env
      (snd (insert_row ex_env ''research_programs'' (payload_of (JStr ''u1'') ex_program) ex_world))
      ''program_deadlines''
      (child_payload deadline_fields
         (stored (next_id ex_world) (payload_of (JStr ''u1'') ex_program)) ex_deadline)"
    by (simp add: ex_env_def)
  have n: "next_id ex_world = 0" "db ex_world = []" by (simp_all add: ex_world_def)
  have dp: "child_payload deadline_fields (stored 0 ex_payload) ex_deadline = ex_deadline_payload"
    by (simp add: child_payload_def deadline_fields_def field_def stored_def ex_deadline_def
        ex_deadline_payload_def)
  from round_trip[OF 1 ex_graph_well_formed 3 4 5, of "JStr ''one''", unfolded n ex_payload_of]
  obtain res w' prow drow where r:
    "persist ex_env (JStr ''u1'') ex_graph (JStr ''one'') ex_world = (Inr res, w')"
    "prow = stored 0 ex_payload"
    "drow = stored (Suc 0) (child_payload deadline_fields prow ex_deadline)"
    "programs res = [prow]" "deadlines res = [drow]"
    "rows_of ''program_deadlines'' (db w') = rows_of ''program_deadlines'' [] @ [drow]"
    "get drow ''program_id'' = get prow ''id''"
    by blast
  from r(3) have d: "drow = stored (Suc 0) ex_deadline_payload" unfolding r(2) dp .
  note q = r(4)[unfolded r(2)] r(5)[unfolded d] r(7)[unfolded d r(2)]
  from r(6) have r6: "rows_of ''program_deadlines'' (db w') = [stored (Suc 0) ex_deadline_payload]"
    unfolding d by (simp add: rows_of_def)
  show ?thesis
    by (rule exI[of _ res], rule exI[of _ w'], intro conjI) (rule r(1) q r6)+
qed

text \<open>
  C10 (request validation). A request other than the \<^verbatim>\<open>OPTIONS\<close> pre-flight
  whose body has no truthy \<^verbatim>\<open>message\<close> or no truthy \<^verbatim>\<open>userId\<close> (the field is
  absent, empty, or otherwise falsy, or the body is not an object at all) is answered
  with status 500 and a failure body, and the world is left as it was: nothing was
  sent to the completion service and the store was not asked for anything. When
  the body can be destructured, the error is the one of the guard of line 19.
\<close>

theorem missing_message_or_userId:
  assumes "method req \<noteq> ''OPTIONS''"
    and "\<forall>b. json req = Some b \<longrightarrow> \<not> truthy (field b ''message'') \<or> \<not> truthy (field b ''userId'')"
  shows "\<exists>e. handler env req w =
           (\<lparr>status = 500, headers = corsHeaders @ [(''Content-Type'', ''application/json'')],
             body = Failure e\<rparr>, w) \<and>
           (\<forall>b. json req = Some b \<and> b \<noteq> JNull \<and> b \<noteq> JUndefined \<longrightarrow>
              e = Error ''Message and userId are required'')"
proof -
  from parse_request_lacking[OF assms(2)] obtain e where e: "parse_request req = Inl e"
    "\<forall>b. json req = Some b \<and> b \<noteq> JNull \<and> b \<noteq> JUndefined \<longrightarrow>
              e = Error ''Message and userId are required''" by blast
  from e(1) assms(1) have "handler env req w =
           (\<lparr>status = 500, headers = corsHeaders @ [(''Content-Type'', ''application/json'')],
             body = Failure e\<rparr>, w)"
    by (simp add: handler_def try_block_def)
  with e(2) show ?thesis by blast
qed

theorem missing_message_or_userId_witness:
  "handler ex_env (ex_request (JObj [(''message'', JStr ''''), (''userId'', JStr ''u1'')])) ex_world =
     (\<lparr>status = 500, headers = corsHeaders @ [(''Content-Type'', ''application/json'')],
       body = Failure (Error ''Message and userId are required'')\<rparr>, ex_world)"
  using missing_message_or_userId[of "ex_request (JObj [(''message'', JStr ''''), (''userId'', JStr ''u1'')])"
      ex_env ex_world]
  by (auto simp: ex_request_def field_def)

text \<open>
  C6 (missing credential). When \<^verbatim>\<open>OPENAI_API_KEY\<close> is absent (or empty), the
  handler leaves the world as it was, whatever the request: no row is written, the
  store is not asked for anything and nothing is sent to the completion service.
  Any request other than the pre-flight is answered with status 500 and a failure
  body, and the error is the configuration error of line 24 as soon as the request
  passes the guard on its body, which comes first.
\<close>

theorem missing_credential:
  assumes "OPENAI_API_KEY env = None \<or> OPENAI_API_KEY env = Some []"
  shows "snd (handler env req w) = w \<and>
         (method req \<noteq> ''OPTIONS'' \<longrightarrow>
            (\<exists>e. fst (handler env req w) =
                   \<lparr>status = 500, headers = corsHeaders @ [(''Content-Type'', ''application/json'')],
                    body = Failure e\<rparr> \<and>
                 (\<forall>m u. parse_request req = Inr (m, u) \<longrightarrow>
                    e = Error ''OpenAI API key not configured'')))"
proof (cases "parse_request req")
  case (Inl e)
  then show ?thesis by (simp add: handler_def try_block_def)
next
  case (Inr mu)
  with api_key_absent[OF assms] show ?thesis
    by (cases mu) (simp add: handler_def try_block_def)
qed

theorem missing_credential_witness:
  "handler (ex_env\<lparr>OPENAI_API_KEY := None\<rparr>)
     (ex_request (JObj [(''message'', JStr ''hello''), (''userId'', JStr ''u1'')])) ex_world =
     (\<lparr>status = 500, headers = corsHeaders @ [(''Content-Type'', ''application/json'')],
       body = Failure (Error ''OpenAI API key not configured'')\<rparr>, ex_world)"
proof -
  let ?env = "ex_env\<lparr>OPENAI_API_KEY := None\<rparr>"
  let ?req = "ex_request (JObj [(''message'', JStr ''hello''), (''userId'', JStr ''u1'')])"
  have k: "OPENAI_API_KEY ?env = None \<or> OPENAI_API_KEY ?env = Some []" by simp
  have m: "method ?req \<noteq> ''OPTIONS''" by (simp add: ex_request_def)
  have p: "parse_request ?req = Inr (JStr ''hello'', JStr ''u1'')"
    by (simp add: parse_request_def ex_request_def)
  from missing_credential[OF k, of ?req ex_world] m p
  show ?thesis by (cases "handler ?env ?req ex_world") auto
qed

text \<open>
  C7 (empty extraction). When the request passes the guards and the completion
  service answers with content that parses to data whose \<^verbatim>\<open>programs\<close> is missing,
  falsy or the empty array, the handler answers with status 200 and four empty
  sequences, and the only change to the world is the one request to the completion
  service: the store is not asked for anything, whatever the other three arrays of
  the data hold.
\<close>

theorem empty_extraction:
  assumes "method req \<noteq> ''OPTIONS''"
    and "parse_request req = Inr (message, userId)"
    and "api_key env = Inr key"
    and "createClient env (SUPABASE_URL env) (SUPABASE_SERVICE_ROLE_KEY env) = None"
    and "call_completion env key message w = (Inr (extractedData, content), w1)"
    and "get extractedData ''programs'' = Inr v"
    and "\<not> truthy v \<or> v = JArr []"
  shows "handler env req w =
           (\<lparr>status = 200, headers = corsHeaders @ [(''Content-Type'', ''application/json'')],
             body = Results \<lparr>programs = [], deadlines = [], people = [], links = [],
                             rawResponse = content\<rparr>\<rparr>,
            w\<lparr>completions := completions w @ [(key, message)]\<rparr>)"
proof -
  from assms(6,7) have "entries extractedData ''programs'' = Inr []"
    by (auto simp: entries_def or_else_def)
  hence "persist env userId extractedData content w1 =
      (Inr \<lparr>programs = [], deadlines = [], people = [], links = [], rawResponse = content\<rparr>, w1)"
    by (simp add: persist_def)
  moreover note call_completion_world[OF assms(5)]
  ultimately show ?thesis using assms(1-5) by (simp add: handler_def try_block_def)
qed

theorem empty_extraction_witness:
  "handler ex_env (ex_request (JObj [(''message'', JStr ''none''), (''userId'', JStr ''u1'')])) ex_world =
     (\<lparr>status = 200, headers = corsHeaders @ [(''Content-Type'', ''application/json'')],
       body = Results \<lparr>programs = [], deadlines = [], people = [], links = [],
                       rawResponse = JStr ''none''\<rparr>\<rparr>,
      ex_world\<lparr>completions := completions ex_world @ [(''sk'', JStr ''none'')]\<rparr>)"
proof -
  let ?req = "ex_request (JObj [(''message'', JStr ''none''), (''userId'', JStr ''u1'')])"
  have 1: "method ?req \<noteq> ''OPTIONS''" by (simp add: ex_request_def)
  have 2: "parse_request ?req = Inr (JStr ''none'', JStr ''u1'')"
    by (simp add: parse_request_def ex_request_def)
  have 3: "api_key ex_env = Inr ''sk''" by (simp add: api_key_def ex_env_def)
  have 4: "createClient ex_env (SUPABASE_URL ex_env) (SUPABASE_SERVICE_ROLE_KEY ex_env) = None"
    by (simp add: ex_env_def)
  have 5: "call_completion ex_env ''sk'' (JStr ''none'') ex_world =
      (Inr (ex_empty_graph, JStr ''none''),
       ex_world\<lparr>completions := completions ex_world @ [(''sk'', JStr ''none'')]\<rparr>)"
    by (simp add: call_completion_def ex_env_def Let_def)
  have 6: "get ex_empty_graph ''programs'' = Inr (JArr [])" by (simp add: ex_empty_graph_def)
  have 7: "\<not> truthy (JArr []) \<or> JArr [] = JArr []" by simp
  from empty_extraction[OF 1 2 3 4 5 6 7] show ?thesis .
qed

text \<open>
  C8 (no idempotence). Run the persist step twice on the same well-formed extracted
  data, the second time on the world the first run left. Whatever the store holds
  and answers, each run asks it to insert every program of the array, with the same
  objects, in order: nothing is looked up first. The program rows written by the
  two runs are all in the table afterwards and their ids are pairwise different.
  With a store that accepts every program insert, each run writes one row for
  each program, so each program has two rows.
\<close>

theorem not_idempotent:
  assumes "well_formed extractedData"
  shows "\<exists>r1 w1 as1 r2 w2 as2.
     persist env userId extractedData content w = (Inr r1, w1) \<and>
     inserts w1 = inserts w @ as1 \<and>
     persist env userId extractedData content w1 = (Inr r2, w2) \<and>
     inserts w2 = inserts w1 @ as2 \<and>
     rows_of ''research_programs'' (map request as1) =
       map (\<lambda>p. JObj (payload_of userId p)) (entries_of extractedData ''programs'') \<and>
     rows_of ''research_programs'' (map request as2) =
       map (\<lambda>p. JObj (payload_of userId p)) (entries_of extractedData ''programs'') \<and>
     rows_of ''research_programs'' (db w2) =
       rows_of ''research_programs'' (db w) @ programs r1 @ programs r2 \<and>
     distinct (map (\<lambda>row. field row ''id'') (programs r1 @ programs r2)) \<and>
     ((\<forall>v p. accepts env v ''research_programs'' p) \<longrightarrow>
        list_all2 (\<lambda>p row. \<exists>n. row = stored n (payload_of userId p))
          (entries_of extractedData ''programs'') (programs r1) \<and>
        list_all2 (\<lambda>p row. \<exists>n. row = stored n (payload_of userId p))
          (entries_of extractedData ''programs'') (programs r2))"
proof -
  let ?ps = "entries_of extractedData ''programs''"
  let ?r0 = "\<lparr>programs = [], deadlines = [], people = [], links = [], rawResponse = content\<rparr>"
  from persist_total[OF assms, of env userId content w] obtain r1 w1
    where p1: "persist env userId extractedData content w = (Inr r1, w1)" by blast
  from persist_total[OF assms, of env userId content w1] obtain r2 w2
    where p2: "persist env userId extractedData content w1 = (Inr r2, w2)" by blast
  from persist_trace[OF p1] obtain as1 where a1: "grown w w1 as1"
    "traced env userId extractedData ?ps as1" "pushed ?r0 r1 (accepted_rows as1)" by blast
  from persist_trace[OF p2] obtain as2 where a2: "grown w1 w2 as2"
    "traced env userId extractedData ?ps as2" "pushed ?r0 r2 (accepted_rows as2)" by blast
  note g = grown_trans[OF a1(1) a2(1)]
  have pr: "programs r1 = rows_of ''research_programs'' (accepted_rows as1)"
    "programs r2 = rows_of ''research_programs'' (accepted_rows as2)"
    using pushed_empty(1)[OF a1(3)] pushed_empty(1)[OF a2(3)] by simp_all
  hence both: "programs r1 @ programs r2 = rows_of ''research_programs'' (accepted_rows (as1 @ as2))"
    by (simp add: accepted_rows_append rows_of_append)
  have 1: "inserts w1 = inserts w @ as1" "inserts w2 = inserts w1 @ as2"
    using a1(1) a2(1) by (simp_all add: grown_def)
  have 2: "rows_of ''research_programs'' (map request as1) = map (\<lambda>p. JObj (payload_of userId p)) ?ps"
    "rows_of ''research_programs'' (map request as2) = map (\<lambda>p. JObj (payload_of userId p)) ?ps"
    using a1(2) a2(2) by (simp_all add: traced_def)
  have 3: "rows_of ''research_programs'' (db w2) =
       rows_of ''research_programs'' (db w) @ programs r1 @ programs r2"
    unfolding both using db_rows_of[OF g] .
  have 4: "distinct (map (\<lambda>row. field row ''id'') (programs r1 @ programs r2))"
    unfolding both using distinct_new_ids[OF g] .
  have 5: "(\<forall>v p. accepts env v ''research_programs'' p) \<longrightarrow>
        list_all2 (\<lambda>p row. \<exists>n. row = stored n (payload_of userId p)) ?ps (programs r1) \<and>
        list_all2 (\<lambda>p row. \<exists>n. row = stored n (payload_of userId p)) ?ps (programs r2)"
    unfolding pr using a1(2) a2(2) by (simp add: traced_def)
  show ?thesis
    by (rule exI[of _ r1], rule exI[of _ w1], rule exI[of _ as1],
        rule exI[of _ r2], rule exI[of _ w2], rule exI[of _ as2], intro conjI)
       (rule p1 p2 1 2 3 4 5)+
qed

theorem not_idempotent_witness:
  "\<exists>w1 n1 n2. n1 \<noteq> n2 \<and>
     w1 = snd (persist ex_env (JStr ''u1'') ex_graph (JStr ''one'') ex_world) \<and>
     rows_of ''research_programs''
       (db (snd (persist ex_env (JStr ''u1'') ex_graph (JStr ''one'') w1))) =
       [stored n1 ex_payload, stored n2 ex_payload]"
proof -
  from not_idempotent[OF ex_graph_well_formed, of ex_env "JStr ''u1''" "JStr ''one''" ex_world]
  obtain r1 w1 as1 r2 w2 as2 where
    p1: "persist ex_env (JStr ''u1'') ex_graph (JStr ''one'') ex_world = (Inr r1, w1)"
    and p2: "persist ex_env (JStr ''u1'') ex_graph (JStr ''one'') w1 = (Inr r2, w2)"
    and rows: "rows_of ''research_programs'' (db w2) =
       rows_of ''research_programs'' (db ex_world) @ programs r1 @ programs r2"
    and d: "distinct (map (\<lambda>row. field row ''id'') (programs r1 @ programs r2))"
    and l: "(\<forall>v p. accepts ex_env v ''research_programs'' p) \<longrightarrow>
        list_all2 (\<lambda>p row. \<exists>n. row = stored n (payload_of (JStr ''u1'') p))
          (entries_of ex_graph ''programs'') (programs r1) \<and>
        list_all2 (\<lambda>p row. \<exists>n. row = stored n (payload_of (JStr ''u1'') p))
          (entries_of ex_graph ''programs'') (programs r2)"
    by blast
  have "\<forall>v p. accepts ex_env v ''research_programs'' p" by (simp add: ex_env_def)
  with l have "list_all2 (\<lambda>p row. \<exists>n. row = stored n (payload_of (JStr ''u1'') p))
          [ex_program] (programs r1)"
    "list_all2 (\<lambda>p row. \<exists>n. row = stored n (payload_of (JStr ''u1'') p))
          [ex_program] (programs r2)"
    unfolding ex_graph_programs by blast+
  then obtain n1 n2 where n: "programs r1 = [stored n1 ex_payload]" "programs r2 = [stored n2 ex_payload]"
    by (auto simp: list_all2_Cons1 ex_payload_of)
  from d have "n1 \<noteq> n2" unfolding n by (auto simp: field_stored_id)
  moreover from rows have "rows_of ''research_programs'' (db w2) =
      [stored n1 ex_payload, stored n2 ex_payload]"
    unfolding n by (simp add: ex_world_def rows_of_def)
  ultimately show ?thesis using p1 p2 by (intro exI[of _ w1] exI[of _ n1] exI[of _ n2]) simp
qed




end
